theory Spec2Isabelle
  imports Complex_Main "HOL-Library.Word" "HOL-Library.Log_Nat"
begin

section \<open>ReadFASTbinary: the decoder of FAST binary output files\<close>

text \<open>
  A shallow embedding of \<^verbatim>\<open>Release/PythonFunctions/ReadFASTbinary.py\<close>. The file is a
  list of bytes, the open handle \<^verbatim>\<open>fid\<close> is the list of bytes not read yet, every
  exception is a value of \<open>error\<close>, and the values numpy computes with are IEEE 754
  binary64 numbers.
\<close>

subsection \<open>IEEE 754 binary64 values\<close>

text \<open>
  A binary64 value is a NaN, an infinity with its sign, or a finite number
  \<open>(-1)^s * m * 2^e\<close> kept in the one form the format stores: \<open>m < 2^53\<close>,
  \<open>-1074 \<le> e \<le> 971\<close>, and \<open>2^52 \<le> m\<close> unless \<open>e = -1074\<close> (zero and the
  subnormals). The sign is \<open>True\<close> for a negative number; NaN payloads are not kept.
\<close>

datatype f64 = NaN | Inf bool | Fin bool nat int

definition is_f64 :: "f64 \<Rightarrow> bool" where
  "is_f64 x = (case x of
       Fin s m e \<Rightarrow> m < 2 ^ 53 \<and> - 1074 \<le> e \<and> e \<le> 971 \<and> (2 ^ 52 \<le> m \<or> e = - 1074)
     | _ \<Rightarrow> True)"

definition isnan :: "f64 \<Rightarrow> bool" where
  "isnan x = (x = NaN)"

definition mk_f64 :: "bool \<Rightarrow> nat \<Rightarrow> int \<Rightarrow> f64" where
  "mk_f64 s m e =
     (let (m', e') = (if m = 2 ^ 53 then (2 ^ 52, e + 1) else (m, e))
      in if e' > 971 then Inf s else Fin s m' e')"

text \<open>
  \<open>rnd s M E\<close> is the binary64 value nearest to \<open>(-1)^s * M * 2^E\<close>, ties to even:
  the rounding every arithmetic operation ends with.
\<close>

definition rnd :: "bool \<Rightarrow> nat \<Rightarrow> int \<Rightarrow> f64" where
  "rnd s M E =
     (if M = 0 then Fin s 0 (- 1074)
      else
        let e = max (E + int (floorlog 2 M) - 53) (- 1074)
        in if e \<le> E then mk_f64 s (M * 2 ^ nat (E - e)) e
           else
             let k = nat (e - E);
                 q = M div 2 ^ k;
                 r = M mod 2 ^ k;
                 h = 2 ^ (k - 1)
             in mk_f64 s (if h < r \<or> (r = h \<and> odd q) then q + 1 else q) e)"

definition fneg :: "f64 \<Rightarrow> f64" where
  "fneg x = (case x of NaN \<Rightarrow> NaN | Inf s \<Rightarrow> Inf (\<not> s) | Fin s m e \<Rightarrow> Fin (\<not> s) m e)"

definition signed :: "bool \<Rightarrow> nat \<Rightarrow> int" where
  "signed s m = (if s then - int m else int m)"

fun fadd :: "f64 \<Rightarrow> f64 \<Rightarrow> f64" where
  "fadd NaN y = NaN"
| "fadd x NaN = NaN"
| "fadd (Inf s) (Inf t) = (if s = t then Inf s else NaN)"
| "fadd (Inf s) (Fin t m e) = Inf s"
| "fadd (Fin s m e) (Inf t) = Inf t"
| "fadd (Fin s m e) (Fin t n f) =
     (let E = min e f;
          A = signed s m * 2 ^ nat (e - E) + signed t n * 2 ^ nat (f - E)
      in if A = 0 then Fin (s \<and> t) 0 (- 1074) else rnd (A < 0) (nat \<bar>A\<bar>) E)"

definition fsub :: "f64 \<Rightarrow> f64 \<Rightarrow> f64" where
  "fsub x y = fadd x (fneg y)"

fun fmul :: "f64 \<Rightarrow> f64 \<Rightarrow> f64" where
  "fmul NaN y = NaN"
| "fmul x NaN = NaN"
| "fmul (Inf s) (Inf t) = Inf (s \<noteq> t)"
| "fmul (Inf s) (Fin t m e) = (if m = 0 then NaN else Inf (s \<noteq> t))"
| "fmul (Fin s m e) (Inf t) = (if m = 0 then NaN else Inf (s \<noteq> t))"
| "fmul (Fin s m e) (Fin t n f) = rnd (s \<noteq> t) (m * n) (e + f)"

text \<open>
  Division rounds the exact quotient. \<open>m * 2^110 div n\<close> has more than 55 bits, so that
  twice it, with the lowest bit set when the division left a remainder, rounds as the
  exact quotient does.
\<close>

fun fdiv :: "f64 \<Rightarrow> f64 \<Rightarrow> f64" where
  "fdiv NaN y = NaN"
| "fdiv x NaN = NaN"
| "fdiv (Inf s) (Inf t) = NaN"
| "fdiv (Inf s) (Fin t m e) = Inf (s \<noteq> t)"
| "fdiv (Fin s m e) (Inf t) = Fin (s \<noteq> t) 0 (- 1074)"
| "fdiv (Fin s m e) (Fin t n f) =
     (if n = 0 then (if m = 0 then NaN else Inf (s \<noteq> t))
      else
        let N = m * 2 ^ 110;
            q = N div n
        in rnd (s \<noteq> t) (2 * q + (if N mod n = 0 then 0 else 1)) (e - f - 111))"

definition f64_of_int :: "int \<Rightarrow> f64" where
  "f64_of_int i = rnd (i < 0) (nat \<bar>i\<bar>) 0"

definition f64_zero :: f64 where
  "f64_zero = Fin False 0 (- 1074)"

definition f64_one :: f64 where
  "f64_one = Fin False (2 ^ 52) (- 52)"


subsection \<open>Bytes, \<^verbatim>\<open>struct\<close> formats and exceptions\<close>

type_synonym byte = "8 word"

text \<open>
  The exceptions the function can end with. \<open>UnsupportedFormat v\<close> is
  \<^verbatim>\<open>Exception('FileID not supported {}. Is it a FAST binary file?')\<close> (line 74) and
  \<open>TruncatedFile cnt n\<close> is
  \<^verbatim>\<open>Exception('Could not read entire %s file: read %d of %d [time] values')\<close>
  (lines 122 and 139); the others are Python's own.
\<close>

datatype error =
    FileNotFoundError
  | StructError
  | ValueError
  | ZeroDivisionError
  | TypeError
  | IndexError
  | UnsupportedFormat int
  | TruncatedFile int int

text \<open>Little-endian value of a byte string (the byte order of the machines FAST runs on).\<close>

fun le_nat :: "byte list \<Rightarrow> nat" where
  "le_nat [] = 0"
| "le_nat (b # bs) = unat b + 256 * le_nat bs"

definition le_int :: "byte list \<Rightarrow> int" where
  "le_int bs =
     (let v = int (le_nat bs); w = 2 ^ (8 * length bs)
      in if 2 * v < w then v else v - w)"

definition f64_of_bits32 :: "nat \<Rightarrow> f64" where
  "f64_of_bits32 b =
     (let s = (b div 2 ^ 31) mod 2 = 1;
          ex = (b div 2 ^ 23) mod 256;
          fr = b mod 2 ^ 23
      in if ex = 255 then (if fr = 0 then Inf s else NaN)
         else if ex = 0 then rnd s fr (- 149)
         else rnd s (2 ^ 23 + fr) (int ex - 150))"

definition f64_of_bits64 :: "nat \<Rightarrow> f64" where
  "f64_of_bits64 b =
     (let s = (b div 2 ^ 63) mod 2 = 1;
          ex = (b div 2 ^ 52) mod 2048;
          fr = b mod 2 ^ 52
      in if ex = 2047 then (if fr = 0 then Inf s else NaN)
         else if ex = 0 then Fin s fr (- 1074)
         else Fin s (2 ^ 52 + fr) (int ex - 1075))"

text \<open>
  A type name of \<^verbatim>\<open>fread\<close> stands for its entry in the table of line 19: the number
  of bytes of one value and the value \<^verbatim>\<open>struct.unpack\<close> makes of them. A
  \<^verbatim>\<open>float32\<close> is unpacked into a Python float, which is a binary64.
\<close>

record 'a dtype =
  nbytes :: nat
  unpack1 :: "byte list \<Rightarrow> 'a"

definition uint8 :: "int dtype" where
  "uint8 = \<lparr>nbytes = 1, unpack1 = (\<lambda>bs. int (le_nat bs))\<rparr>"

definition int16 :: "int dtype" where
  "int16 = \<lparr>nbytes = 2, unpack1 = le_int\<rparr>"

definition int32 :: "int dtype" where
  "int32 = \<lparr>nbytes = 4, unpack1 = le_int\<rparr>"

definition float32 :: "f64 dtype" where
  "float32 = \<lparr>nbytes = 4, unpack1 = (\<lambda>bs. f64_of_bits32 (le_nat bs))\<rparr>"

definition float64 :: "f64 dtype" where
  "float64 = \<lparr>nbytes = 8, unpack1 = (\<lambda>bs. f64_of_bits64 (le_nat bs))\<rparr>"

text \<open>
  \<^verbatim>\<open>np.array\<close> of unpacked 16-bit integers, once it is stored in or combined with a
  \<^verbatim>\<open>float64\<close> array: every value is converted to binary64.
\<close>

definition as_float64 :: "int dtype \<Rightarrow> f64 dtype" where
  "as_float64 ty = \<lparr>nbytes = nbytes ty, unpack1 = (\<lambda>bs. f64_of_int (unpack1 ty bs))\<rparr>"

fun chunks :: "nat \<Rightarrow> nat \<Rightarrow> 'b list \<Rightarrow> 'b list list" where
  "chunks k 0 bs = []"
| "chunks k (Suc n) bs = take k bs # chunks k n (drop k bs)"

text \<open>
  \<^verbatim>\<open>struct.unpack(fmt * n, buf)\<close>: the format repeated \<open>n\<close> times (empty when
  \<open>n \<le> 0\<close>) needs a buffer of exactly its size, and raises \<^verbatim>\<open>struct.error\<close> on any
  other.
\<close>

definition struct_unpack :: "'a dtype \<Rightarrow> int \<Rightarrow> byte list \<Rightarrow> error + 'a list" where
  "struct_unpack ty n buf =
     (if length buf = nbytes ty * nat n
      then Inr (map (unpack1 ty) (chunks (nbytes ty) (nat n) buf))
      else Inl StructError)"

subsection \<open>The open file\<close>

text \<open>
  \<^verbatim>\<open>fid\<close> is the list of bytes from the file position to the end of the file. A
  reading step takes the handle and returns its result, or the exception it raised, with
  the handle as the step left it.
\<close>

type_synonym fid = "byte list"
type_synonym 'a io = "fid \<Rightarrow> (error + 'a) \<times> fid"

definition io_return :: "'a \<Rightarrow> 'a io" where
  "io_return v fid = (Inr v, fid)"

definition io_raise :: "error \<Rightarrow> 'a io" where
  "io_raise e fid = (Inl e, fid)"

definition io_bind :: "'a io \<Rightarrow> ('a \<Rightarrow> 'b io) \<Rightarrow> 'b io" where
  "io_bind m f fid =
     (case m fid of
        (Inl e, fid') \<Rightarrow> (Inl e, fid')
      | (Inr v, fid') \<Rightarrow> f v fid')"

definition io_lift :: "error + 'a \<Rightarrow> 'a io" where
  "io_lift r fid = (r, fid)"

text \<open>
  \<^verbatim>\<open>fid.read(k)\<close> of a buffered binary file: at most \<open>k\<close> bytes, all the rest of
  the file for \<open>k = -1\<close>, and \<^verbatim>\<open>ValueError\<close> for \<open>k < -1\<close>.
\<close>

definition fid_read :: "int \<Rightarrow> byte list io" where
  "fid_read k fid =
     (if k < - 1 then (Inl ValueError, fid)
      else if k = - 1 then (Inr fid, [])
      else (Inr (take (nat k) fid), drop (nat k) fid))"

text \<open>Line 18: \<^verbatim>\<open>struct.unpack(fmt * n, fid.read(nbytes * n))\<close>.\<close>

definition fread :: "int \<Rightarrow> 'a dtype \<Rightarrow> 'a list io" where
  "fread n ty =
     io_bind (fid_read (int (nbytes ty) * n)) (\<lambda>buf. io_lift (struct_unpack ty n buf))"

text \<open>\<^verbatim>\<open>fread(fid, 1, type)[0]\<close>.\<close>

definition item0 :: "'a list \<Rightarrow> 'a io" where
  "item0 v = (case v of [] \<Rightarrow> io_raise IndexError | x # _ \<Rightarrow> io_return x)"

subsection \<open>Strings\<close>

text \<open>
  \<^verbatim>\<open>"".join(map(chr, codes))\<close> of byte values, and \<^verbatim>\<open>str.strip()\<close>, which removes
  the characters \<^verbatim>\<open>str.isspace\<close> holds of from both ends; below 256 these are 9 to 13,
  28 to 32, 133 and 160.
\<close>

definition chr_join :: "int list \<Rightarrow> string" where
  "chr_join codes = map (\<lambda>c. char_of (nat c)) codes"

definition isspace :: "char \<Rightarrow> bool" where
  "isspace c = (let n = (of_char c :: nat) in (9 \<le> n \<and> n \<le> 13) \<or> (28 \<le> n \<and> n \<le> 32) \<or> n = 133 \<or> n = 160)"

definition strip :: "string \<Rightarrow> string" where
  "strip s = rev (dropWhile isspace (rev (dropWhile isspace s)))"

text \<open>The slice \<^verbatim>\<open>s[1:-1]\<close>.\<close>

definition slice_1_m1 :: "'b list \<Rightarrow> 'b list" where
  "slice_1_m1 s = butlast (tl s)"

text \<open>
  \<^verbatim>\<open>os.path.splitext(os.path.basename(filename))[0]\<close> with the separator \<^verbatim>\<open>/\<close>:
  the part after the last separator, without its extension; a name that is all dots up
  to its last dot has no extension.
\<close>

definition basename :: "string \<Rightarrow> string" where
  "basename p = rev (takeWhile (\<lambda>c. c \<noteq> CHR ''/'') (rev p))"

definition splitext_root :: "string \<Rightarrow> string" where
  "splitext_root p =
     (let ext = takeWhile (\<lambda>c. c \<noteq> CHR ''.'') (rev p);
          root = rev (drop (Suc (length ext)) (rev p))
      in if length ext < length p \<and> filter (\<lambda>c. c \<noteq> CHR ''.'') root \<noteq> [] then root else p)"


subsection \<open>numpy arrays\<close>

text \<open>
  A two-dimensional \<^verbatim>\<open>float64\<close> array is its shape and its rows; a one-dimensional
  array or a tuple of floats is a list.
\<close>

record arr2 =
  nrows :: nat
  ncols :: nat
  vals :: "f64 list list"

definition tabulate2 :: "nat \<Rightarrow> nat \<Rightarrow> (nat \<Rightarrow> nat \<Rightarrow> f64) \<Rightarrow> arr2" where
  "tabulate2 r c f = \<lparr>nrows = r, ncols = c, vals = map (\<lambda>i. map (f i) [0..<c]) [0..<r]\<rparr>"

definition at2 :: "arr2 \<Rightarrow> nat \<Rightarrow> nat \<Rightarrow> f64" where
  "at2 a i j = vals a ! i ! j"

text \<open>\<^verbatim>\<open>np.zeros((r, c))\<close> and \<^verbatim>\<open>np.ones((r, c))\<close>: a negative dimension is a \<^verbatim>\<open>ValueError\<close>.\<close>

definition np_full :: "f64 \<Rightarrow> int \<Rightarrow> int \<Rightarrow> error + arr2" where
  "np_full v r c =
     (if r < 0 \<or> c < 0 then Inl ValueError
      else Inr (tabulate2 (nat r) (nat c) (\<lambda>i j. v)))"

definition np_zeros :: "int \<Rightarrow> int \<Rightarrow> error + arr2" where
  "np_zeros = np_full f64_zero"

definition np_ones :: "int \<Rightarrow> int \<Rightarrow> error + arr2" where
  "np_ones = np_full f64_one"

text \<open>
  \<^verbatim>\<open>np.array(xs).reshape(r, c)\<close>: the sizes must agree; one dimension given as \<open>-1\<close>
  is worked out from the other, which must then be positive and divide the size.
\<close>

definition reshape2 :: "f64 list \<Rightarrow> int \<Rightarrow> int \<Rightarrow> error + arr2" where
  "reshape2 xs r c =
     (let n = length xs;
          mk = (\<lambda>r' c'. Inr \<lparr>nrows = r', ncols = c', vals = chunks c' r' xs\<rparr>)
      in if r = - 1 \<and> c = - 1 then Inl ValueError
         else if r = - 1 then
           (if 0 < c \<and> n mod nat c = 0 then mk (n div nat c) (nat c) else Inl ValueError)
         else if c = - 1 then
           (if 0 < r \<and> n mod nat r = 0 then mk (nat r) (n div nat r) else Inl ValueError)
         else if 0 \<le> r \<and> 0 \<le> c \<and> nat r * nat c = n then mk (nat r) (nat c)
         else Inl ValueError)"

text \<open>
  Broadcasting of one dimension: equal sizes, or one of them 1, which is then repeated.
\<close>

definition bdim :: "nat \<Rightarrow> nat \<Rightarrow> nat option" where
  "bdim a b = (if a = b then Some a else if a = 1 then Some b else if b = 1 then Some a else None)"

definition bidx :: "nat \<Rightarrow> nat \<Rightarrow> nat" where
  "bidx len i = (if len = 1 then 0 else i)"

text \<open>An elementwise operation on two one-dimensional operands (arrays or tuples).\<close>

definition bc1 :: "(f64 \<Rightarrow> f64 \<Rightarrow> f64) \<Rightarrow> f64 list \<Rightarrow> f64 list \<Rightarrow> error + f64 list" where
  "bc1 f xs ys =
     (case bdim (length xs) (length ys) of
        None \<Rightarrow> Inl ValueError
      | Some n \<Rightarrow> Inr (map (\<lambda>i. f (xs ! bidx (length xs) i) (ys ! bidx (length ys) i)) [0..<n]))"

text \<open>An elementwise operation on two two-dimensional arrays.\<close>

definition bc2 :: "(f64 \<Rightarrow> f64 \<Rightarrow> f64) \<Rightarrow> arr2 \<Rightarrow> arr2 \<Rightarrow> error + arr2" where
  "bc2 f a b =
     (case (bdim (nrows a) (nrows b), bdim (ncols a) (ncols b)) of
        (Some r, Some c) \<Rightarrow>
          Inr (tabulate2 r c (\<lambda>i j.
                 f (at2 a (bidx (nrows a) i) (bidx (ncols a) j))
                   (at2 b (bidx (nrows b) i) (bidx (ncols b) j))))
      | _ \<Rightarrow> Inl ValueError)"

text \<open>
  \<^verbatim>\<open>ColScl\<close> and \<^verbatim>\<open>ColOff\<close> are a tuple of floats (line 95) or, for the format
  without compression, an array of shape \<open>(NumOutChans, 1)\<close> (line 92). As an operand
  next to a two-dimensional array a tuple of \<open>n\<close> values has the shape \<open>(1, n)\<close>.
  \<open>col_item c i\<close> is \<^verbatim>\<open>c[i]\<close> where the code uses it as one number: the float of a
  tuple, or the only element of row \<open>i\<close> of the array.
\<close>

datatype cols = Tup "f64 list" | Arr arr2

definition as_arr2 :: "cols \<Rightarrow> arr2" where
  "as_arr2 c = (case c of Tup xs \<Rightarrow> \<lparr>nrows = 1, ncols = length xs, vals = [xs]\<rparr> | Arr a \<Rightarrow> a)"

definition col_item :: "cols \<Rightarrow> nat \<Rightarrow> f64" where
  "col_item c i = (case c of Tup xs \<Rightarrow> xs ! i | Arr a \<Rightarrow> at2 a i 0)"

text \<open>
  A slice \<^verbatim>\<open>a:b\<close> of an axis of the given length: a negative bound counts from the
  end, and both are clipped to the axis. The result is the first index and the count.
\<close>

definition slice_norm :: "int \<Rightarrow> nat \<Rightarrow> nat" where
  "slice_norm i len = (if i < 0 then nat (max (i + int len) 0) else min (nat i) len)"

definition slice_range :: "int \<Rightarrow> int \<Rightarrow> nat \<Rightarrow> nat \<times> nat" where
  "slice_range a b len = (slice_norm a len, slice_norm b len - slice_norm a len)"

text \<open>
  \<^verbatim>\<open>data[a:b, c:d] = buf\<close>: \<^verbatim>\<open>buf\<close> must have the shape of the block or broadcast
  to it.
\<close>

definition setitem_block :: "arr2 \<Rightarrow> int \<Rightarrow> int \<Rightarrow> int \<Rightarrow> int \<Rightarrow> arr2 \<Rightarrow> error + arr2" where
  "setitem_block data a b c d buf =
     (let (r0, rn) = slice_range a b (nrows data);
          (c0, cn) = slice_range c d (ncols data)
      in if (nrows buf = rn \<or> nrows buf = 1) \<and> (ncols buf = cn \<or> ncols buf = 1)
         then Inr (tabulate2 (nrows data) (ncols data) (\<lambda>i j.
                if r0 \<le> i \<and> i < r0 + rn \<and> c0 \<le> j \<and> j < c0 + cn
                then at2 buf (bidx (nrows buf) (i - r0)) (bidx (ncols buf) (j - c0))
                else at2 data i j))
         else Inl ValueError)"

text \<open>\<^verbatim>\<open>data[:, j] = f(data[:, j])\<close> for a column \<open>j\<close> of the array.\<close>

definition map_col :: "nat \<Rightarrow> (f64 \<Rightarrow> f64) \<Rightarrow> arr2 \<Rightarrow> arr2" where
  "map_col j f data =
     tabulate2 (nrows data) (ncols data) (\<lambda>i k. if k = j then f (at2 data i k) else at2 data i k)"

text \<open>\<^verbatim>\<open>data[:, 0] = time\<close>: \<^verbatim>\<open>time\<close> has one value per row, or one value for all.\<close>

definition set_col0 :: "arr2 \<Rightarrow> f64 list \<Rightarrow> error + arr2" where
  "set_col0 data time =
     (if ncols data = 0 then Inl IndexError
      else if length time = nrows data \<or> length time = 1
      then Inr (tabulate2 (nrows data) (ncols data) (\<lambda>i k.
             if k = 0 then time ! bidx (length time) i else at2 data i k))
      else Inl ValueError)"

text \<open>\<^verbatim>\<open>np.concatenate([a, b], 1)\<close>: the arrays must have the same number of rows.\<close>

definition concatenate1 :: "arr2 \<Rightarrow> arr2 \<Rightarrow> error + arr2" where
  "concatenate1 a b =
     (if nrows a = nrows b
      then Inr (tabulate2 (nrows a) (ncols a + ncols b) (\<lambda>i j.
             if j < ncols a then at2 a i j else at2 b i (j - ncols a)))
      else Inl ValueError)"

text \<open>
  \<^verbatim>\<open>int(a / b)\<close> on integers: the quotient cut towards zero, and
  \<^verbatim>\<open>ZeroDivisionError\<close> for \<open>b = 0\<close>. The function divides the number of values by
  the number of columns, \<open>4096 * 40\<close> by the number of columns, and a buffer by the
  number of columns: quotients that the float division represents without an error that
  could reach the next integer.
\<close>

definition int_truediv :: "int \<Rightarrow> int \<Rightarrow> error + int" where
  "int_truediv a b =
     (if b = 0 then Inl ZeroDivisionError else Inr (sgn a * sgn b * (\<bar>a\<bar> div \<bar>b\<bar>)))"


subsection \<open>The header (lines 71 to 110)\<close>

abbreviation (input) FileFmtID_WithTime :: int where "FileFmtID_WithTime \<equiv> 1"
abbreviation (input) FileFmtID_WithoutTime :: int where "FileFmtID_WithoutTime \<equiv> 2"
abbreviation (input) FileFmtID_NoCompressWithoutTime :: int where "FileFmtID_NoCompressWithoutTime \<equiv> 3"
abbreviation (input) FileFmtID_ChanLen_In :: int where "FileFmtID_ChanLen_In \<equiv> 4"

text \<open>
  The two numbers after the counts are \<^verbatim>\<open>TimeScl\<close> and \<^verbatim>\<open>TimeOff\<close> in a file with
  packed time and \<^verbatim>\<open>TimeOut1\<close> and \<^verbatim>\<open>TimeIncr\<close> in the others; each is the tuple of
  one float that \<^verbatim>\<open>fread\<close> returns.
\<close>

datatype time_hdr = WithTime "f64 list" "f64 list" | WithoutTime "f64 list" "f64 list"

text \<open>Lines 76 to 79: the number of characters of a channel name or unit.\<close>

definition read_LenName :: "int \<Rightarrow> int io" where
  "read_LenName FileID =
     (if FileID = FileFmtID_ChanLen_In then io_bind (fread 1 int16) item0 else io_return 10)"

text \<open>Lines 84 to 89.\<close>

definition read_TimeHdr :: "int \<Rightarrow> time_hdr io" where
  "read_TimeHdr FileID =
     (if FileID = FileFmtID_WithTime
      then io_bind (fread 1 float64) (\<lambda>TimeScl.
           io_bind (fread 1 float64) (\<lambda>TimeOff.
           io_return (WithTime TimeScl TimeOff)))
      else io_bind (fread 1 float64) (\<lambda>TimeOut1.
           io_bind (fread 1 float64) (\<lambda>TimeIncr.
           io_return (WithoutTime TimeOut1 TimeIncr))))"

text \<open>Lines 91 to 96: the channel slopes and offsets.\<close>

definition read_ColSclOff :: "int \<Rightarrow> int \<Rightarrow> (cols \<times> cols) io" where
  "read_ColSclOff FileID NumOutChans =
     (if FileID = FileFmtID_NoCompressWithoutTime
      then io_bind (io_lift (np_ones NumOutChans 1)) (\<lambda>ColScl.
           io_bind (io_lift (np_zeros NumOutChans 1)) (\<lambda>ColOff.
           io_return (Arr ColScl, Arr ColOff)))
      else io_bind (fread NumOutChans float32) (\<lambda>ColScl.
           io_bind (fread NumOutChans float32) (\<lambda>ColOff.
           io_return (Tup ColScl, Tup ColOff))))"

record header =
  FileID :: int
  LenName :: int
  NumOutChans :: int
  NT :: int
  TimeHdr :: time_hdr
  ColScl :: cols
  ColOff :: cols
  LenDesc :: int
  DescStr :: string
  ChanName :: "string list"
  ChanUnit :: "string list"

text \<open>
  The loops of lines 103 and 108: \<open>k\<close> fields of \<^verbatim>\<open>LenName\<close> bytes, each decoded,
  stripped and, for a unit, cut by \<^verbatim>\<open>[1:-1]\<close>.
\<close>

fun read_strs :: "nat \<Rightarrow> int \<Rightarrow> (string \<Rightarrow> string) \<Rightarrow> string list io" where
  "read_strs 0 len trim = io_return []"
| "read_strs (Suc k) len trim =
     io_bind (fread len uint8) (\<lambda>codes.
     io_bind (read_strs k len trim) (\<lambda>rest.
     io_return (trim (strip (chr_join codes)) # rest)))"

definition read_header :: "header io" where
  "read_header =
     io_bind (io_bind (fread 1 int16) item0) (\<lambda>FileID.
     if FileID \<notin> set [FileFmtID_WithTime, FileFmtID_WithoutTime,
                       FileFmtID_NoCompressWithoutTime, FileFmtID_ChanLen_In]
     then io_raise (UnsupportedFormat FileID)
     else
     io_bind (read_LenName FileID) (\<lambda>LenName.
     io_bind (io_bind (fread 1 int32) item0) (\<lambda>NumOutChans.
     io_bind (io_bind (fread 1 int32) item0) (\<lambda>NT.
     io_bind (read_TimeHdr FileID) (\<lambda>TimeHdr.
     io_bind (read_ColSclOff FileID NumOutChans) (\<lambda>(ColScl, ColOff).
     io_bind (io_bind (fread 1 int32) item0) (\<lambda>LenDesc.
     io_bind (fread LenDesc uint8) (\<lambda>DescStrASCII.
     io_bind (read_strs (nat (NumOutChans + 1)) LenName id) (\<lambda>ChanName.
     io_bind (read_strs (nat (NumOutChans + 1)) LenName slice_1_m1) (\<lambda>ChanUnit.
     io_return \<lparr>FileID = FileID, LenName = LenName, NumOutChans = NumOutChans, NT = NT,
                TimeHdr = TimeHdr, ColScl = ColScl, ColOff = ColOff,
                LenDesc = LenDesc, DescStr = strip (chr_join DescStrASCII),
                ChanName = ChanName, ChanUnit = ChanUnit\<rparr>))))))))))"

subsection \<open>The buffered table reader (lines 22 to 58)\<close>

text \<open>
  A step that may not return: \<open>None\<close> is a computation that runs forever.
\<close>

type_synonym 'a iop = "fid \<Rightarrow> ((error + 'a) \<times> fid) option"

definition iop_of :: "'a io \<Rightarrow> 'a iop" where
  "iop_of m fid = Some (m fid)"

definition iop_bind :: "'a iop \<Rightarrow> ('a \<Rightarrow> 'b iop) \<Rightarrow> 'b iop" where
  "iop_bind m f fid =
     (case m fid of
        None \<Rightarrow> None
      | Some (Inl e, fid') \<Rightarrow> Some (Inl e, fid')
      | Some (Inr v, fid') \<Rightarrow> f v fid')"

text \<open>
  The body of the \<^verbatim>\<open>while\<close> loop, lines 50 to 53, with \<^verbatim>\<open>nIntToRead\<close> of line 49
  given: the number of lines read and the table with these lines written, or the
  exception raised.
\<close>

definition loop_body :: "f64 dtype \<Rightarrow> int \<Rightarrow> nat \<Rightarrow> int \<Rightarrow> int \<Rightarrow> arr2 \<Rightarrow> (int \<times> arr2) io" where
  "loop_body type_in nCols nOff nIntToRead nLinesRead data =
     io_bind (io_lift (int_truediv nIntToRead nCols)) (\<lambda>nLinesToRead.
     io_bind (fread nIntToRead type_in) (\<lambda>unpacked.
     io_bind (io_lift (reshape2 unpacked (- 1) nCols)) (\<lambda>Buffer.
     io_bind (io_lift (setitem_block data nLinesRead (nLinesRead + nLinesToRead)
                         (int nOff) (int nOff + nCols) Buffer)) (\<lambda>data'.
     io_return (nLinesToRead, data')))))"

text \<open>
  The loop of lines 48 to 55 inside its \<^verbatim>\<open>try\<close>. The bare \<^verbatim>\<open>except\<close> of line 56
  catches every exception of the body and builds the message of line 57 with
  \<^verbatim>\<open>'... %d of %d ...' % (nIntRead, n, filename)\<close>: three values for two conversions,
  which raises \<^verbatim>\<open>TypeError\<close> in place of the exception the line was to raise.
\<close>

partial_function (option) read_loop ::
  "f64 dtype \<Rightarrow> int \<Rightarrow> int \<Rightarrow> int \<Rightarrow> nat \<Rightarrow> int \<times> int \<times> arr2 \<Rightarrow> fid \<Rightarrow> ((error + arr2) \<times> fid) option"
where
  "read_loop type_in n BufferSize nCols nOff st fid =
     (case st of (nIntRead, nLinesRead, data) \<Rightarrow>
        if nIntRead < n then
          (let nIntToRead = min (n - nIntRead) BufferSize
           in case loop_body type_in nCols nOff nIntToRead nLinesRead data fid of
                (Inl e, fid') \<Rightarrow> Some (Inl TypeError, fid')
              | (Inr (nLinesToRead, data'), fid') \<Rightarrow>
                  read_loop type_in n BufferSize nCols nOff
                    (nIntRead + nIntToRead, nLinesRead + nLinesToRead, data') fid')
        else Some (Inr data, fid))"

definition GoodBufferSize :: int where
  "GoodBufferSize = 4096 * 40"

definition freadRowOrderTableBuffered :: "int \<Rightarrow> f64 dtype \<Rightarrow> int \<Rightarrow> nat \<Rightarrow> arr2 iop" where
  "freadRowOrderTableBuffered n type_in nCols nOff =
     iop_bind (iop_of (io_lift (int_truediv n nCols))) (\<lambda>nLines.
     iop_bind (iop_of (io_lift (int_truediv GoodBufferSize nCols))) (\<lambda>nLinesPerBuffer.
     let BufferSize = nCols * nLinesPerBuffer in
     iop_bind (iop_of (io_lift (int_truediv n BufferSize))) (\<lambda>nBuffer.
     iop_bind (iop_of (io_lift (np_zeros nLines (nCols + int nOff)))) (\<lambda>data.
     read_loop type_in n BufferSize nCols nOff (0, 0, data)))))"

subsection \<open>The channel time series (lines 116 to 141)\<close>

text \<open>
  Lines 118 to 122: \<^verbatim>\<open>PackedTime\<close>, which is left empty when the file has no packed
  time and is not used then. The test of line 121 is kept as it is written, after the
  \<^verbatim>\<open>fread\<close> that raises on a short file.
\<close>

definition read_PackedTime :: "header \<Rightarrow> int list io" where
  "read_PackedTime h =
     (if FileID h = FileFmtID_WithTime
      then io_bind (fread (NT h) int32) (\<lambda>PackedTime.
           let cnt = int (length PackedTime)
           in if cnt < NT h then io_raise (TruncatedFile cnt (NT h))
              else io_return PackedTime)
      else io_return [])"

text \<open>
  Lines 124 to 141: \<^verbatim>\<open>data\<close>. The 16-bit integers of the unbuffered branch are
  given as the \<^verbatim>\<open>float64\<close> values that line 162 turns them into. The test of line
  138 is kept as it is written.
\<close>

definition read_data :: "bool \<Rightarrow> header \<Rightarrow> arr2 iop" where
  "read_data use_buffer h =
     (let nPts = NT h * NumOutChans h in
      if use_buffer then
        (if FileID h = FileFmtID_NoCompressWithoutTime
         then freadRowOrderTableBuffered nPts float64 (NumOutChans h) 1
         else freadRowOrderTableBuffered nPts (as_float64 int16) (NumOutChans h) 1)
      else
        iop_of
          (io_bind (if FileID h = FileFmtID_NoCompressWithoutTime
                    then fread nPts float64
                    else fread nPts (as_float64 int16)) (\<lambda>PackedData.
           let cnt = int (length PackedData)
           in if cnt < nPts then io_raise (TruncatedFile cnt nPts)
              else io_lift (reshape2 PackedData (NT h) (NumOutChans h)))))"

definition read_series :: "bool \<Rightarrow> header \<Rightarrow> (int list \<times> arr2) iop" where
  "read_series use_buffer h =
     iop_bind (iop_of (read_PackedTime h)) (\<lambda>PackedTime.
     iop_bind (read_data use_buffer h) (\<lambda>data.
     iop_of (io_return (PackedTime, data))))"

text \<open>The \<^verbatim>\<open>with\<close> block, lines 66 to 141.\<close>

definition with_block :: "bool \<Rightarrow> (header \<times> int list \<times> arr2) iop" where
  "with_block use_buffer =
     iop_bind (iop_of read_header) (\<lambda>h.
     iop_bind (read_series use_buffer h) (\<lambda>(PackedTime, data).
     iop_of (io_return (h, PackedTime, data))))"

subsection \<open>Time and scaling (lines 143 to 163)\<close>

definition err_bind :: "error + 'a \<Rightarrow> ('a \<Rightarrow> error + 'b) \<Rightarrow> error + 'b" where
  "err_bind r f = (case r of Inl e \<Rightarrow> Inl e | Inr v \<Rightarrow> f v)"

text \<open>\<^verbatim>\<open>np.arange(NT)\<close>, as the \<^verbatim>\<open>float64\<close> values the product turns it into.\<close>

definition arange :: "int \<Rightarrow> f64 list" where
  "arange n = map (\<lambda>i. f64_of_int (int i)) [0..<nat n]"

text \<open>Lines 143 to 146; the branch taken is the one that read the header's two numbers.\<close>

definition reconstruct_time :: "header \<Rightarrow> int list \<Rightarrow> error + f64 list" where
  "reconstruct_time h PackedTime =
     (case TimeHdr h of
        WithTime TimeScl TimeOff \<Rightarrow>
          err_bind (bc1 fsub (map f64_of_int PackedTime) TimeOff) (\<lambda>d. bc1 fdiv d TimeScl)
      | WithoutTime TimeOut1 TimeIncr \<Rightarrow>
          err_bind (bc1 fmul TimeIncr (arange (NT h))) (\<lambda>p. bc1 fadd TimeOut1 p))"

text \<open>
  The loop of lines 153 to 157 over the channels \<open>iCol\<close>; the table of the buffered reader
  has the column \<open>iCol + 1\<close> of every channel.
\<close>

fun scale_cols :: "cols \<Rightarrow> cols \<Rightarrow> nat list \<Rightarrow> arr2 \<Rightarrow> error + arr2" where
  "scale_cols scl off [] data = Inr data"
| "scale_cols scl off (iCol # rest) data =
     (if ncols data \<le> iCol + 1 then Inl IndexError
      else if isnan (col_item scl iCol) \<and> isnan (col_item off iCol)
      then scale_cols scl off rest (map_col (iCol + 1) (\<lambda>x. f64_zero) data)
      else scale_cols scl off rest
             (map_col (iCol + 1) (\<lambda>x. fdiv (fsub x (col_item off iCol)) (col_item scl iCol)) data))"

definition scale_data :: "bool \<Rightarrow> header \<Rightarrow> arr2 \<Rightarrow> f64 list \<Rightarrow> error + arr2" where
  "scale_data use_buffer h data time =
     (if use_buffer then
        err_bind (scale_cols (ColScl h) (ColOff h) [0..<nat (NumOutChans h)] data) (\<lambda>data.
        set_col0 data time)
      else
        err_bind (bc2 fsub data (as_arr2 (ColOff h))) (\<lambda>data.
        err_bind (bc2 fdiv data (as_arr2 (ColScl h))) (\<lambda>data.
        err_bind (reshape2 time (NT h) 1) (\<lambda>time.
        concatenate1 time data))))"

subsection \<open>ReadFASTbinary\<close>

record info =
  name :: string
  description :: string
  fileID :: int
  attribute_names :: "string list"
  attribute_units :: "string list"

text \<open>
  The file system is a map from paths to file contents; \<^verbatim>\<open>open\<close> of a path it does not
  hold raises \<^verbatim>\<open>FileNotFoundError\<close>. The result is \<open>None\<close> when the call does not
  return.
\<close>

definition ReadFASTbinary ::
  "(string \<rightharpoonup> byte list) \<Rightarrow> string \<Rightarrow> bool \<Rightarrow> (error + arr2 \<times> info) option" where
  "ReadFASTbinary fs filename use_buffer =
     (case fs filename of
        None \<Rightarrow> Some (Inl FileNotFoundError)
      | Some bytes \<Rightarrow>
          (case with_block use_buffer bytes of
             None \<Rightarrow> None
           | Some (Inl e, fid) \<Rightarrow> Some (Inl e)
           | Some (Inr (h, PackedTime, data), fid) \<Rightarrow>
               Some (err_bind (reconstruct_time h PackedTime) (\<lambda>time.
                     err_bind (scale_data use_buffer h data time) (\<lambda>data.
                     Inr (data,
                          \<lparr>name = splitext_root (basename filename),
                           description = DescStr h,
                           fileID = FileID h,
                           attribute_names = ChanName h,
                           attribute_units = ChanUnit h\<rparr>))))))"

subsection \<open>The file format as the specification gives it\<close>

text \<open>
  The table of fields of the specification, as functions of the file's bytes: the field
  at a position, the positions of the regions, and the value each field holds. The
  decoder is compared with these below.
\<close>

definition field :: "byte list \<Rightarrow> nat \<Rightarrow> nat \<Rightarrow> byte list" where
  "field bytes pos len = take len (drop pos bytes)"

definition file_format_id :: "byte list \<Rightarrow> int" where
  "file_format_id bytes = le_int (field bytes 0 2)"

definition file_name_len :: "byte list \<Rightarrow> int" where
  "file_name_len bytes = (if file_format_id bytes = 4 then le_int (field bytes 2 2) else 10)"

text \<open>Position of the channel count.\<close>

definition file_p0 :: "byte list \<Rightarrow> nat" where
  "file_p0 bytes = (if file_format_id bytes = 4 then 4 else 2)"

definition file_channel_count :: "byte list \<Rightarrow> int" where
  "file_channel_count bytes = le_int (field bytes (file_p0 bytes) 4)"

definition file_step_count :: "byte list \<Rightarrow> int" where
  "file_step_count bytes = le_int (field bytes (file_p0 bytes + 4) 4)"

text \<open>Time scale and offset (format 1), or start and increment (the other formats).\<close>

definition file_time1 :: "byte list \<Rightarrow> f64" where
  "file_time1 bytes = f64_of_bits64 (le_nat (field bytes (file_p0 bytes + 8) 8))"

definition file_time2 :: "byte list \<Rightarrow> f64" where
  "file_time2 bytes = f64_of_bits64 (le_nat (field bytes (file_p0 bytes + 16) 8))"

text \<open>Scale and offset of channel \<open>c\<close>: stored, or 1 and 0 in the format without compression.\<close>

definition file_scale :: "byte list \<Rightarrow> nat \<Rightarrow> f64" where
  "file_scale bytes c =
     (if file_format_id bytes = 3 then f64_one
      else f64_of_bits32 (le_nat (field bytes (file_p0 bytes + 24 + 4 * c) 4)))"

definition file_offset :: "byte list \<Rightarrow> nat \<Rightarrow> f64" where
  "file_offset bytes c =
     (if file_format_id bytes = 3 then f64_zero
      else f64_of_bits32 (le_nat
             (field bytes (file_p0 bytes + 24 + 4 * nat (file_channel_count bytes) + 4 * c) 4)))"

text \<open>Position of the length of the description.\<close>

definition file_p1 :: "byte list \<Rightarrow> nat" where
  "file_p1 bytes =
     file_p0 bytes + 24 + (if file_format_id bytes = 3 then 0 else 8 * nat (file_channel_count bytes))"

definition file_desc_len :: "byte list \<Rightarrow> int" where
  "file_desc_len bytes = le_int (field bytes (file_p1 bytes) 4)"

text \<open>Position of the channel names.\<close>

definition file_p2 :: "byte list \<Rightarrow> nat" where
  "file_p2 bytes = file_p1 bytes + 4 + nat (file_desc_len bytes)"

text \<open>The bytes of a field as characters.\<close>

definition decode_field :: "byte list \<Rightarrow> string" where
  "decode_field bs = map (\<lambda>b. char_of (unat b)) bs"

definition file_description :: "byte list \<Rightarrow> byte list" where
  "file_description bytes = field bytes (file_p1 bytes + 4) (nat (file_desc_len bytes))"

definition file_name_field :: "byte list \<Rightarrow> nat \<Rightarrow> byte list" where
  "file_name_field bytes k =
     field bytes (file_p2 bytes + k * nat (file_name_len bytes)) (nat (file_name_len bytes))"

definition file_unit_field :: "byte list \<Rightarrow> nat \<Rightarrow> byte list" where
  "file_unit_field bytes k =
     field bytes (file_p2 bytes + (nat (file_channel_count bytes + 1) + k) * nat (file_name_len bytes))
       (nat (file_name_len bytes))"

text \<open>Position of the packed time (format 1) or of the payload.\<close>

definition file_p3 :: "byte list \<Rightarrow> nat" where
  "file_p3 bytes =
     file_p2 bytes + 2 * nat (file_channel_count bytes + 1) * nat (file_name_len bytes)"

definition file_packed_time :: "byte list \<Rightarrow> nat \<Rightarrow> int" where
  "file_packed_time bytes i = le_int (field bytes (file_p3 bytes + 4 * i) 4)"

text \<open>Position of the payload.\<close>

definition file_p4 :: "byte list \<Rightarrow> nat" where
  "file_p4 bytes =
     file_p3 bytes + (if file_format_id bytes = 1 then 4 * nat (file_step_count bytes) else 0)"

text \<open>
  The stored value of time step \<open>r\<close> and channel \<open>c\<close>: a 64-bit float in the format
  without compression, or else a signed 16-bit integer, as the \<^verbatim>\<open>float64\<close> it becomes.
\<close>

definition file_stored :: "byte list \<Rightarrow> nat \<Rightarrow> nat \<Rightarrow> f64" where
  "file_stored bytes r c =
     (let i = r * nat (file_channel_count bytes) + c
      in if file_format_id bytes = 3
         then f64_of_bits64 (le_nat (field bytes (file_p4 bytes + 8 * i) 8))
         else f64_of_int (le_int (field bytes (file_p4 bytes + 2 * i) 2)))"

text \<open>The size the header's counts give the file.\<close>

definition file_end :: "byte list \<Rightarrow> nat" where
  "file_end bytes =
     file_p4 bytes + (if file_format_id bytes = 3 then 8 else 2)
       * (nat (file_step_count bytes) * nat (file_channel_count bytes))"

text \<open>The element type of the payload, for a format identifier.\<close>

definition payload_dtype :: "int \<Rightarrow> f64 dtype" where
  "payload_dtype fmt = (if fmt = 3 then float64 else as_float64 int16)"

text \<open>
  Time reconstruction and dequantization as the specification states them: for packed
  time \<open>(packed_time[i] - time_offset) / time_scale\<close>, for computed time
  \<open>start + increment * i\<close>, and \<open>(stored - offset) / scale\<close> for a channel value.
\<close>

definition file_time :: "byte list \<Rightarrow> nat \<Rightarrow> f64" where
  "file_time bytes i =
     (if file_format_id bytes = 1
      then fdiv (fsub (f64_of_int (file_packed_time bytes i)) (file_time2 bytes)) (file_time1 bytes)
      else fadd (file_time1 bytes) (fmul (file_time2 bytes) (f64_of_int (int i))))"

definition file_dequantized :: "byte list \<Rightarrow> nat \<Rightarrow> nat \<Rightarrow> f64" where
  "file_dequantized bytes r c =
     fdiv (fsub (file_stored bytes r c) (file_offset bytes c)) (file_scale bytes c)"

definition nan_sentinel :: "byte list \<Rightarrow> nat \<Rightarrow> bool" where
  "nan_sentinel bytes c = (isnan (file_scale bytes c) \<and> isnan (file_offset bytes c))"

section \<open>Properties\<close>

subsection \<open>Reading steps\<close>

lemma chunks_unfold:
  "chunks k n bs = (if n = 0 then [] else take k bs # chunks k (n - 1) (drop k bs))"
  by (cases n) simp_all

lemma fread_1_int16:
  "2 \<le> length fid \<Longrightarrow> fread 1 int16 fid = (Inr [le_int (take 2 fid)], drop 2 fid)"
  by (simp add: fread_def fid_read_def io_bind_def io_lift_def struct_unpack_def int16_def
      chunks_unfold)

lemma read_header_unsupported:
  assumes "2 \<le> length bytes" and "le_int (take 2 bytes) \<notin> {1, 2, 3, 4}"
  shows "read_header bytes = (Inl (UnsupportedFormat (le_int (take 2 bytes))), drop 2 bytes)"
  using assms
  by (simp add: read_header_def io_bind_def fread_1_int16 item0_def io_return_def io_raise_def)

lemma with_block_header_error:
  "read_header bytes = (Inl e, fid') \<Longrightarrow> with_block use_buffer bytes = Some (Inl e, fid')"
  by (simp add: with_block_def iop_bind_def iop_of_def)

text \<open>
  C4. A file whose first two bytes, read as a signed 16-bit integer, are not 1, 2, 3 or 4
  ends in the exception of line 74, in both modes; the handle is then at position 2, and
  the result does not depend on any byte after the first two.
\<close>

theorem unsupported_format_rejected:
  assumes "fs filename = Some bytes"
    and "2 \<le> length bytes"
    and "le_int (take 2 bytes) \<notin> {1, 2, 3, 4}"
  shows "ReadFASTbinary fs filename use_buffer =
           Some (Inl (UnsupportedFormat (le_int (take 2 bytes))))
       \<and> with_block use_buffer bytes =
           Some (Inl (UnsupportedFormat (le_int (take 2 bytes))), drop 2 bytes)
       \<and> (\<forall>rest. ReadFASTbinary (fs(filename \<mapsto> take 2 bytes @ rest)) filename use_buffer =
                   ReadFASTbinary fs filename use_buffer)"
proof -
  have wb: "with_block use_buffer bytes =
      Some (Inl (UnsupportedFormat (le_int (take 2 bytes))), drop 2 bytes)"
    using assms(2,3) by (simp add: with_block_header_error read_header_unsupported)
  have r: "ReadFASTbinary fs filename use_buffer =
      Some (Inl (UnsupportedFormat (le_int (take 2 bytes))))"
    using assms(1) wb by (simp add: ReadFASTbinary_def)
  have "ReadFASTbinary (fs(filename \<mapsto> take 2 bytes @ rest)) filename use_buffer =
      Some (Inl (UnsupportedFormat (le_int (take 2 bytes))))" for rest
  proof -
    let ?b = "take 2 bytes @ rest"
    have t: "take 2 ?b = take 2 bytes" using assms(2) by simp
    have "with_block use_buffer ?b =
        Some (Inl (UnsupportedFormat (le_int (take 2 ?b))), drop 2 ?b)"
      using assms(2,3) t
      by (intro with_block_header_error read_header_unsupported) simp_all
    then have "with_block use_buffer ?b =
        Some (Inl (UnsupportedFormat (le_int (take 2 bytes))), drop 2 ?b)"
      by (simp only: t)
    then show ?thesis by (simp add: ReadFASTbinary_def)
  qed
  with wb r show ?thesis by simp
qed

theorem unsupported_format_rejected_witness:
  "[''run.outb'' \<mapsto> [7, 0, 1, 2, 3 :: byte]] ''run.outb'' = Some [7, 0, 1, 2, 3]
   \<and> 2 \<le> length [7, 0, 1, 2, 3 :: byte]
   \<and> le_int (take 2 [7, 0, 1, 2, 3 :: byte]) = 7
   \<and> ReadFASTbinary [''run.outb'' \<mapsto> [7, 0, 1, 2, 3]] ''run.outb'' True =
       Some (Inl (UnsupportedFormat 7))
   \<and> with_block True [7, 0, 1, 2, 3] = Some (Inl (UnsupportedFormat 7), [1, 2, 3])"
proof -
  have v: "le_int (take 2 [7, 0, 1, 2, 3 :: byte]) = 7"
    by (simp add: le_int_def)
  have "ReadFASTbinary [''run.outb'' \<mapsto> [7, 0, 1, 2, 3]] ''run.outb'' True =
           Some (Inl (UnsupportedFormat (le_int (take 2 [7, 0, 1, 2, 3 :: byte]))))
       \<and> with_block True [7, 0, 1, 2, 3] =
           Some (Inl (UnsupportedFormat (le_int (take 2 [7, 0, 1, 2, 3 :: byte]))), drop 2 [7, 0, 1, 2, 3])"
    using unsupported_format_rejected [of "[''run.outb'' \<mapsto> [7, 0, 1, 2, 3]]" "''run.outb''"
        "[7, 0, 1, 2, 3]" True] v
    by simp
  with v show ?thesis by simp
qed

lemma length_chunks [simp]: "length (chunks k n bs) = n"
  by (induction n arbitrary: bs) simp_all

lemma chunks_nth: "i < n \<Longrightarrow> chunks k n bs ! i = take k (drop (i * k) bs)"
proof (induction n arbitrary: bs i)
  case 0
  then show ?case by simp
next
  case (Suc n)
  show ?case
  proof (cases i)
    case 0
    then show ?thesis by simp
  next
    case (Suc j)
    with Suc.prems have "j < n" by simp
    from Suc.IH [OF this, of "drop k bs"] Suc show ?thesis
      by (simp add: add.commute)
  qed
qed

lemma chunks_take: "k * n \<le> m \<Longrightarrow> chunks k n (take m bs) = chunks k n bs"
proof (induction n arbitrary: bs m)
  case 0
  then show ?case by simp
next
  case (Suc n)
  then have km: "k \<le> m" and "k * n \<le> m - k" by auto
  with Suc.IH [of "m - k" "drop k bs"] show ?case
    by (simp add: drop_take min_absorb2 take_take)
qed

lemma chunks_eq_map:
  "chunks k n bs = map (\<lambda>i. take k (drop (i * k) bs)) [0..<n]"
  by (rule nth_equalityI) (simp_all add: chunks_nth)

lemma fid_read_nonneg:
  "0 \<le> k \<Longrightarrow> fid_read k fid = (Inr (take (nat k) fid), drop (nat k) fid)"
  by (simp add: fid_read_def)

lemma fread_ok:
  assumes "0 \<le> n" and "nbytes ty * nat n \<le> length fid"
  shows "fread n ty fid =
           (Inr (map (unpack1 ty) (chunks (nbytes ty) (nat n) fid)), drop (nbytes ty * nat n) fid)"
proof -
  have k: "nat (int (nbytes ty) * n) = nbytes ty * nat n"
    using assms(1) by (simp add: nat_mult_distrib)
  show ?thesis
    using assms
    by (simp add: fread_def io_bind_def io_lift_def fid_read_nonneg k struct_unpack_def
        chunks_take)
qed

lemma fread_short:
  assumes "0 \<le> n" and "length fid < nbytes ty * nat n"
  shows "fread n ty fid = (Inl StructError, [])"
proof -
  have k: "nat (int (nbytes ty) * n) = nbytes ty * nat n"
    using assms(1) by (simp add: nat_mult_distrib)
  show ?thesis
    using assms
    by (simp add: fread_def io_bind_def io_lift_def fid_read_nonneg k struct_unpack_def)
qed

lemma fread_neg:
  assumes "n < 0" and "2 \<le> nbytes ty"
  shows "fread n ty fid = (Inl ValueError, fid)"
proof -
  have "int (nbytes ty) * n \<le> 2 * n"
    using assms by (intro mult_right_mono_neg) simp_all
  then have "int (nbytes ty) * n < - 1" using assms(1) by linarith
  then show ?thesis
    by (simp add: fread_def io_bind_def fid_read_def)
qed

lemma fread_InrD:
  assumes "fread n ty fid = (Inr v, fid')" and "0 < nbytes ty"
  shows "v = map (unpack1 ty) (chunks (nbytes ty) (nat n) fid)
       \<and> fid' = drop (nbytes ty * nat n) fid
       \<and> nbytes ty * nat n \<le> length fid"
proof (cases "0 \<le> n")
  case True
  show ?thesis
  proof (cases "nbytes ty * nat n \<le> length fid")
    case le: True
    from fread_ok [OF True le] assms(1) le show ?thesis by simp
  next
    case False
    then have "length fid < nbytes ty * nat n" by simp
    from fread_short [OF True this] assms(1) show ?thesis by simp
  qed
next
  case False
  then have n: "n < 0" by simp
  then have kneg: "int (nbytes ty) * n < 0"
    using assms(2) by (simp add: mult_pos_neg)
  show ?thesis
  proof (cases "int (nbytes ty) * n < - 1")
    case True
    with assms(1) show ?thesis
      by (simp add: fread_def io_bind_def fid_read_def)
  next
    case False
    with kneg have k: "int (nbytes ty) * n = - 1" by linarith
    from n have nn: "nat n = 0" by simp
    from assms(1) show ?thesis
      by (auto simp add: fread_def io_bind_def fid_read_def k nn struct_unpack_def io_lift_def
          split: if_splits)
  qed
qed

lemma io_bind_InrD:
  assumes "io_bind m f fid = (Inr v, fid')"
  obtains x fid1 where "m fid = (Inr x, fid1)" and "f x fid1 = (Inr v, fid')"
  using assms by (auto simp: io_bind_def split: prod.splits sum.splits)

lemma fread1_InrD:
  assumes "io_bind (fread 1 ty) item0 fid = (Inr x, fid')" and "0 < nbytes ty"
  shows "x = unpack1 ty (take (nbytes ty) fid) \<and> fid' = drop (nbytes ty) fid
       \<and> nbytes ty \<le> length fid"
proof -
  from assms(1) obtain v fid1 where f: "fread 1 ty fid = (Inr v, fid1)"
    and i: "item0 v fid1 = (Inr x, fid')"
    by (rule io_bind_InrD)
  from fread_InrD [OF f assms(2)] i show ?thesis
    by (simp add: item0_def io_return_def)
qed

lemma chr_join_uint8:
  assumes "n \<le> length fid"
  shows "chr_join (map (unpack1 uint8) (chunks (nbytes uint8) n fid)) = decode_field (take n fid)"
proof (rule nth_equalityI)
  show "length (chr_join (map (unpack1 uint8) (chunks (nbytes uint8) n fid))) =
        length (decode_field (take n fid))"
    using assms by (simp add: chr_join_def decode_field_def)
next
  fix i
  assume "i < length (chr_join (map (unpack1 uint8) (chunks (nbytes uint8) n fid)))"
  then have i: "i < n" by (simp add: chr_join_def)
  with assms have "take (Suc 0) (drop i fid) = [fid ! i]"
    by (simp add: take_Suc_conv_app_nth hd_drop_conv_nth take_Suc)
  with i assms show "chr_join (map (unpack1 uint8) (chunks (nbytes uint8) n fid)) ! i =
        decode_field (take n fid) ! i"
    by (simp add: chr_join_def decode_field_def uint8_def chunks_nth)
qed

lemma read_strs_InrD:
  assumes "read_strs k len trim fid = (Inr v, fid')"
  shows "v = map (\<lambda>i. trim (strip (decode_field (take (nat len) (drop (i * nat len) fid)))))
               [0..<k]
       \<and> fid' = drop (k * nat len) fid \<and> k * nat len \<le> length fid"
  using assms
proof (induction k arbitrary: fid v fid')
  case 0
  then show ?case by (simp add: io_return_def)
next
  case (Suc k)
  from Suc.prems obtain codes fid1 where f: "fread len uint8 fid = (Inr codes, fid1)"
    and r: "io_bind (read_strs k len trim)
              (\<lambda>rest. io_return (trim (strip (chr_join codes)) # rest)) fid1 = (Inr v, fid')"
    by (auto elim: io_bind_InrD)
  from r obtain rest fid2 where rs: "read_strs k len trim fid1 = (Inr rest, fid2)"
    and v: "v = trim (strip (chr_join codes)) # rest" and fid2: "fid2 = fid'"
    by (auto elim!: io_bind_InrD simp: io_return_def)
  have nb: "0 < nbytes uint8" by (simp add: uint8_def)
  from fread_InrD [OF f nb]
  have codes: "codes = map (unpack1 uint8) (chunks (nbytes uint8) (nat len) fid)"
    and fid1: "fid1 = drop (nat len) fid" and len: "nat len \<le> length fid"
    by (simp_all add: uint8_def)
  from codes len have c: "chr_join codes = decode_field (take (nat len) fid)"
    by (simp add: chr_join_uint8)
  from Suc.IH [OF rs] fid1 fid2
  have rest: "rest = map (\<lambda>i. trim (strip (decode_field
                   (take (nat len) (drop (i * nat len + nat len) fid))))) [0..<k]"
    and f': "fid' = drop (k * nat len + nat len) fid"
    and l': "k * nat len \<le> length fid - nat len"
    by (simp_all add: add.commute)
  have m: "map (\<lambda>i. trim (strip (decode_field (take (nat len) (drop (i * nat len) fid)))))
          [0..<Suc k] =
        trim (strip (decode_field (take (nat len) fid))) # rest"
    unfolding rest by (simp add: upt_conv_Cons map_Suc_upt [symmetric] add.commute del: upt_Suc)
  have l: "Suc k * nat len \<le> length fid" using l' len by simp
  have d: "fid' = drop (Suc k * nat len) fid" using f' by (simp add: add.commute)
  show ?case unfolding m using v c l d by simp
qed


lemma nbytes_simps [simp]:
  "nbytes uint8 = 1" "nbytes int16 = 2" "nbytes int32 = 4" "nbytes float32 = 4"
  "nbytes float64 = 8" "nbytes (as_float64 ty) = nbytes ty"
  by (simp_all add: uint8_def int16_def int32_def float32_def float64_def as_float64_def)

lemma unpack1_simps:
  "unpack1 int16 bs = le_int bs" "unpack1 int32 bs = le_int bs"
  "unpack1 float32 bs = f64_of_bits32 (le_nat bs)"
  "unpack1 float64 bs = f64_of_bits64 (le_nat bs)"
  "unpack1 (as_float64 ty) bs = f64_of_int (unpack1 ty bs)"
  by (simp_all add: int16_def int32_def float32_def float64_def as_float64_def)

lemma np_full_InrD:
  assumes "np_full v r c = Inr a"
  shows "0 \<le> r \<and> 0 \<le> c \<and> a = tabulate2 (nat r) (nat c) (\<lambda>i j. v)"
  using assms by (auto simp: np_full_def split: if_splits)

lemma fread_nonneg:
  assumes "fread n ty fid = (Inr v, fid')" and "2 \<le> nbytes ty"
  shows "0 \<le> n"
proof (rule ccontr)
  assume "\<not> 0 \<le> n"
  then have "n < 0" by simp
  from fread_neg [OF this assms(2)] assms(1) show False by simp
qed

lemma if_raise_InrD:
  "(if c then io_raise e else k) fid = (Inr v, fid') \<Longrightarrow> \<not> c \<and> k fid = (Inr v, fid')"
  by (simp add: io_raise_def split: if_splits)

lemma read_LenName_InrD:
  assumes "read_LenName fmt fid = (Inr nl, fid')"
  shows "nl = (if fmt = 4 then le_int (take 2 fid) else 10)
       \<and> fid' = drop (if fmt = 4 then 2 else 0) fid
       \<and> (if fmt = 4 then 2 else 0) \<le> length fid"
proof (cases "fmt = 4")
  case True
  with assms have "io_bind (fread 1 int16) item0 fid = (Inr nl, fid')"
    by (simp add: read_LenName_def)
  from fread1_InrD [OF this] True show ?thesis by (simp add: unpack1_simps)
next
  case False
  with assms show ?thesis by (simp add: read_LenName_def io_return_def)
qed

lemma two_float64_InrD:
  assumes "io_bind (fread 1 float64) (\<lambda>a. io_bind (fread 1 float64) (\<lambda>b. io_return (F a b))) fid
             = (Inr th, fid')"
  shows "th = F [f64_of_bits64 (le_nat (take 8 fid))] [f64_of_bits64 (le_nat (take 8 (drop 8 fid)))]
       \<and> fid' = drop 16 fid \<and> 16 \<le> length fid"
proof -
  from assms obtain a fid1 where a: "fread 1 float64 fid = (Inr a, fid1)"
    and k: "io_bind (fread 1 float64) (\<lambda>b. io_return (F a b)) fid1 = (Inr th, fid')"
    by (rule io_bind_InrD)
  from k obtain b fid2 where b: "fread 1 float64 fid1 = (Inr b, fid2)"
    and r: "io_return (F a b) fid2 = (Inr th, fid')"
    by (rule io_bind_InrD)
  from fread_InrD [OF a] fread_InrD [OF b] r show ?thesis
    by (auto simp: io_return_def unpack1_simps)
qed

lemma read_TimeHdr_InrD:
  assumes "read_TimeHdr fmt fid = (Inr th, fid')"
  shows "th = (if fmt = 1
               then WithTime [f64_of_bits64 (le_nat (take 8 fid))]
                      [f64_of_bits64 (le_nat (take 8 (drop 8 fid)))]
               else WithoutTime [f64_of_bits64 (le_nat (take 8 fid))]
                      [f64_of_bits64 (le_nat (take 8 (drop 8 fid)))])
       \<and> fid' = drop 16 fid \<and> 16 \<le> length fid"
  using assms two_float64_InrD [of WithTime fid th fid'] two_float64_InrD [of WithoutTime fid th fid']
  by (simp add: read_TimeHdr_def split: if_splits)

lemma read_ColSclOff_InrD:
  assumes "read_ColSclOff fmt C fid = (Inr p, fid')"
  shows "0 \<le> C
       \<and> fst p = (if fmt = 3 then Arr (tabulate2 (nat C) 1 (\<lambda>i j. f64_one))
                else Tup (map (\<lambda>c. f64_of_bits32 (le_nat (take 4 (drop (4 * c) fid)))) [0..<nat C]))
       \<and> snd p = (if fmt = 3 then Arr (tabulate2 (nat C) 1 (\<lambda>i j. f64_zero))
                else Tup (map (\<lambda>c. f64_of_bits32 (le_nat (take 4 (drop (4 * nat C + 4 * c) fid))))
                            [0..<nat C]))
       \<and> fid' = drop (if fmt = 3 then 0 else 8 * nat C) fid
       \<and> (if fmt = 3 then 0 else 8 * nat C) \<le> length fid"
proof (cases "fmt = 3")
  case True
  with assms obtain a b where "np_ones C 1 = Inr a" "np_zeros C 1 = Inr b"
    and "p = (Arr a, Arr b)" "fid' = fid"
    by (auto simp: read_ColSclOff_def io_lift_def io_return_def elim!: io_bind_InrD)
  with True show ?thesis
    by (auto simp: np_ones_def np_zeros_def dest!: np_full_InrD)
next
  case False
  with assms obtain a fid1 b where a: "fread C float32 fid = (Inr a, fid1)"
    and b: "fread C float32 fid1 = (Inr b, fid')" and s: "p = (Tup a, Tup b)"
    by (auto simp: read_ColSclOff_def io_return_def elim!: io_bind_InrD)
  from fread_nonneg [OF a] have C: "0 \<le> C" by simp
  from fread_InrD [OF a] fread_InrD [OF b] False s C show ?thesis
    by (auto simp: chunks_eq_map unpack1_simps comp_def mult.commute add.commute)
qed

lemma read_header_layout:
  assumes "read_header bytes = (Inr h, rest)"
  shows "FileID h = file_format_id bytes \<and> FileID h \<in> {1, 2, 3, 4}
       \<and> LenName h = file_name_len bytes
       \<and> NumOutChans h = file_channel_count bytes \<and> 0 \<le> NumOutChans h
       \<and> NT h = file_step_count bytes
       \<and> TimeHdr h = (if FileID h = 1 then WithTime [file_time1 bytes] [file_time2 bytes]
                      else WithoutTime [file_time1 bytes] [file_time2 bytes])
       \<and> ColScl h = (if FileID h = 3 then Arr (tabulate2 (nat (NumOutChans h)) 1 (\<lambda>i j. f64_one))
                     else Tup (map (file_scale bytes) [0..<nat (NumOutChans h)]))
       \<and> ColOff h = (if FileID h = 3 then Arr (tabulate2 (nat (NumOutChans h)) 1 (\<lambda>i j. f64_zero))
                     else Tup (map (file_offset bytes) [0..<nat (NumOutChans h)]))
       \<and> LenDesc h = file_desc_len bytes
       \<and> DescStr h = strip (decode_field (file_description bytes))
       \<and> ChanName h = map (\<lambda>k. strip (decode_field (file_name_field bytes k)))
                          [0..<nat (NumOutChans h + 1)]
       \<and> ChanUnit h = map (\<lambda>k. slice_1_m1 (strip (decode_field (file_unit_field bytes k))))
                          [0..<nat (NumOutChans h + 1)]
       \<and> rest = drop (file_p3 bytes) bytes \<and> file_p3 bytes \<le> length bytes"
  apply (insert assms)
  apply (unfold read_header_def)
  apply (erule io_bind_InrD, drule fread1_InrD, simp (no_asm))
  apply (drule if_raise_InrD, elim conjE)
  apply (erule io_bind_InrD, drule read_LenName_InrD, elim conjE)
  apply (erule io_bind_InrD, drule fread1_InrD, simp (no_asm), elim conjE)
  apply (erule io_bind_InrD, drule fread1_InrD, simp (no_asm), elim conjE)
  apply (erule io_bind_InrD, drule read_TimeHdr_InrD, elim conjE)
  apply (erule io_bind_InrD, drule read_ColSclOff_InrD, elim conjE)
  apply (unfold case_prod_beta)
  apply (erule io_bind_InrD, drule fread1_InrD, simp (no_asm), elim conjE)
  apply (erule io_bind_InrD, drule fread_InrD, simp (no_asm), elim conjE)
  apply (erule io_bind_InrD, drule read_strs_InrD, elim conjE)
  apply (erule io_bind_InrD, drule read_strs_InrD, elim conjE)
  apply (unfold io_return_def nbytes_simps unpack1_simps)
  subgoal premises p for fmt f1 nl f2 C f3 nt f4 th f5 so f6 ld f7 codes f8 names f9 units f10
  proof -
    define q0 :: nat where "q0 = (if fmt = 4 then 4 else 2)"
    define q1 :: nat where "q1 = q0 + 24 + (if fmt = 3 then 0 else 8 * nat C)"
    define q2 :: nat where "q2 = q1 + 4 + nat ld"
    define w :: nat where "w = nat (C + 1) * nat nl"
    have fmt: "fmt = le_int (take 2 bytes)" by fact
    have fmt4: "fmt \<in> {1, 2, 3, 4}" using p(2) by simp
    have f1: "f1 = drop 2 bytes" and l1: "2 \<le> length bytes" by fact+
    have nl: "nl = (if fmt = 4 then le_int (take 2 f1) else 10)" by fact
    have "f2 = drop (if fmt = 4 then 2 else 0) f1" by fact
    then have f2: "f2 = drop q0 bytes" by (cases "fmt = 4") (simp_all add: f1 q0_def)
    have "(if fmt = 4 then 2 else 0) \<le> length f1" by fact
    then have l2: "q0 \<le> length bytes" using l1 by (simp add: f1 q0_def split: if_splits)
    have C: "C = le_int (take 4 f2)" by fact
    have "f3 = drop 4 f2" and "4 \<le> length f2" by fact+
    then have f3: "f3 = drop (q0 + 4) bytes" and l3: "q0 + 4 \<le> length bytes"
      using l2 by (simp_all add: f2 add.commute)
    have nt: "nt = le_int (take 4 f3)" by fact
    have "f4 = drop 4 f3" and "4 \<le> length f3" by fact+
    then have f4: "f4 = drop (q0 + 8) bytes" and l4: "q0 + 8 \<le> length bytes"
      using l3 by (simp_all add: f3 add.commute)
    have th: "th = (if fmt = 1
         then WithTime [f64_of_bits64 (le_nat (take 8 f4))]
               [f64_of_bits64 (le_nat (take 8 (drop 8 f4)))]
         else WithoutTime [f64_of_bits64 (le_nat (take 8 f4))]
               [f64_of_bits64 (le_nat (take 8 (drop 8 f4)))])" by fact
    have "f5 = drop 16 f4" and "16 \<le> length f4" by fact+
    then have f5: "f5 = drop (q0 + 24) bytes" and l5: "q0 + 24 \<le> length bytes"
      using l4 by (simp_all add: f4 add.commute)
    have C0: "0 \<le> C" by fact
    have scl: "fst so = (if fmt = 3 then Arr (tabulate2 (nat C) 1 (\<lambda>i j. f64_one))
         else Tup (map (\<lambda>c. f64_of_bits32 (le_nat (take 4 (drop (4 * c) f5)))) [0..<nat C]))"
      by fact
    have off: "snd so = (if fmt = 3 then Arr (tabulate2 (nat C) 1 (\<lambda>i j. f64_zero))
         else Tup (map (\<lambda>c. f64_of_bits32 (le_nat (take 4 (drop (4 * nat C + 4 * c) f5))))
                    [0..<nat C]))"
      by fact
    have "f6 = drop (if fmt = 3 then 0 else 8 * nat C) f5"
      and "(if fmt = 3 then 0 else 8 * nat C) \<le> length f5" by fact+
    then have f6: "f6 = drop q1 bytes" and l6: "q1 \<le> length bytes"
      using l5 by (simp_all add: f5 q1_def add.commute split: if_splits)
    have ld: "ld = le_int (take 4 f6)" by fact
    have "f7 = drop 4 f6" and "4 \<le> length f6" by fact+
    then have f7: "f7 = drop (q1 + 4) bytes" and l7: "q1 + 4 \<le> length bytes"
      using l6 by (simp_all add: f6 add.commute)
    have codes: "codes = map (unpack1 uint8) (chunks 1 (nat ld) f7)" by fact
    have "f8 = drop (1 * nat ld) f7" and ll: "1 * nat ld \<le> length f7" by fact+
    then have f8: "f8 = drop q2 bytes" and l8: "q2 \<le> length bytes"
      using l7 by (simp_all add: f7 q2_def add.commute)
    have names: "names = map (\<lambda>i. id (strip (decode_field (take (nat nl) (drop (i * nat nl) f8)))))
         [0..<nat (C + 1)]" by fact
    have "f9 = drop (nat (C + 1) * nat nl) f8" and "nat (C + 1) * nat nl \<le> length f8" by fact+
    then have f9: "f9 = drop (q2 + w) bytes" and l9: "q2 + w \<le> length bytes"
      using l8 by (simp_all add: f8 w_def add.commute)
    have units: "units = map (\<lambda>i. slice_1_m1 (strip (decode_field
                   (take (nat nl) (drop (i * nat nl) f9))))) [0..<nat (C + 1)]" by fact
    have "f10 = drop (nat (C + 1) * nat nl) f9" and "nat (C + 1) * nat nl \<le> length f9" by fact+
    then have "f10 = drop (w + (q2 + w)) bytes" and "w \<le> length bytes - (q2 + w)"
      by (simp_all add: f9 w_def)
    moreover have "w + (q2 + w) = q2 + 2 * w" by simp
    ultimately have f10: "f10 = drop (q2 + 2 * w) bytes" and l10: "q2 + 2 * w \<le> length bytes"
      using l9 by (simp_all only:)
    have h: "h = \<lparr>FileID = fmt, LenName = nl, NumOutChans = C, NT = nt, TimeHdr = th,
                ColScl = fst so, ColOff = snd so, LenDesc = ld,
                DescStr = strip (chr_join codes), ChanName = names, ChanUnit = units\<rparr>"
      and rest: "rest = f10" using p(31) by simp_all
    have id: "file_format_id bytes = fmt"
      by (simp add: file_format_id_def field_def fmt)
    have p0: "file_p0 bytes = q0" by (simp add: file_p0_def id q0_def)
    have nlen: "file_name_len bytes = nl"
      by (simp add: file_name_len_def field_def id nl f1)
    have cc: "file_channel_count bytes = C"
      by (simp add: file_channel_count_def field_def p0 C f2)
    have sc: "file_step_count bytes = nt"
      by (simp add: file_step_count_def field_def p0 nt f3)
    have t1: "file_time1 bytes = f64_of_bits64 (le_nat (take 8 f4))"
      by (simp add: file_time1_def field_def p0 f4)
    have t2: "file_time2 bytes = f64_of_bits64 (le_nat (take 8 (drop 8 f4)))"
      by (simp add: file_time2_def field_def p0 f4 add.commute)
    have p1: "file_p1 bytes = q1" by (simp add: file_p1_def p0 id cc q1_def)
    have dl: "file_desc_len bytes = ld"
      by (simp add: file_desc_len_def field_def p1 ld f6)
    have p2: "file_p2 bytes = q2" by (simp add: file_p2_def p1 dl q2_def)
    have p3: "file_p3 bytes = q2 + 2 * w"
      by (simp add: file_p3_def p2 cc nlen w_def)
    have desc: "chr_join codes = decode_field (file_description bytes)"
      using ll chr_join_uint8 [of "nat ld" f7]
      by (simp add: codes file_description_def field_def p1 dl f7)
    have 1: "ColScl h = (if FileID h = 3 then Arr (tabulate2 (nat (NumOutChans h)) 1 (\<lambda>i j. f64_one))
                     else Tup (map (file_scale bytes) [0..<nat (NumOutChans h)]))"
      by (simp add: h scl file_scale_def field_def id p0 f5 add.commute)
    have 2: "ColOff h = (if FileID h = 3 then Arr (tabulate2 (nat (NumOutChans h)) 1 (\<lambda>i j. f64_zero))
                     else Tup (map (file_offset bytes) [0..<nat (NumOutChans h)]))"
      by (simp add: h off file_offset_def field_def id p0 cc f5 add.commute add.left_commute)
    have 3: "ChanName h = map (\<lambda>k. strip (decode_field (file_name_field bytes k)))
                          [0..<nat (NumOutChans h + 1)]"
      by (simp add: h names file_name_field_def field_def p2 nlen f8 add.commute)
    have 4: "ChanUnit h = map (\<lambda>k. slice_1_m1 (strip (decode_field (file_unit_field bytes k))))
                          [0..<nat (NumOutChans h + 1)]"
      by (simp add: h units file_unit_field_def field_def p2 nlen cc f9 w_def
          add.commute add.left_commute distrib_right)
    have 5: "TimeHdr h = (if FileID h = 1 then WithTime [file_time1 bytes] [file_time2 bytes]
                      else WithoutTime [file_time1 bytes] [file_time2 bytes])"
      by (simp add: h th t1 t2)
    have 6: "DescStr h = strip (decode_field (file_description bytes))"
      by (simp add: h desc)
    have a: "FileID h = fmt" "LenName h = nl" "NumOutChans h = C" "NT h = nt" "LenDesc h = ld"
      by (simp_all add: h)
    show ?thesis
      apply (intro conjI)
      using fmt4 C0 l10
      by (simp_all add: 1 2 3 4 5 6 a id nlen cc sc dl p3 rest f10)
  qed
  done


subsection \<open>Arrays\<close>

lemma nrows_tabulate2 [simp]: "nrows (tabulate2 r c f) = r"
  and ncols_tabulate2 [simp]: "ncols (tabulate2 r c f) = c"
  by (simp_all add: tabulate2_def)

lemma at2_tabulate2 [simp]: "i < r \<Longrightarrow> j < c \<Longrightarrow> at2 (tabulate2 r c f) i j = f i j"
  by (simp add: tabulate2_def at2_def)

lemma tabulate2_cong:
  assumes "\<And>i j. i < r \<Longrightarrow> j < c \<Longrightarrow> f i j = g i j"
  shows "tabulate2 r c f = tabulate2 r c g"
  using assms by (simp add: tabulate2_def)

lemma tabulate2_at2 [simp]: "tabulate2 r c (at2 (tabulate2 r c f)) = tabulate2 r c f"
  by (rule tabulate2_cong) simp

lemma bidx_less [simp]: "i < n \<Longrightarrow> bidx n i = i"
  by (simp add: bidx_def)

lemma int_truediv_mult:
  assumes "0 < c" and "0 \<le> m"
  shows "int_truediv (c * m) c = Inr m"
proof -
  have "\<bar>c * m\<bar> div \<bar>c\<bar> = m" using assms by simp
  moreover have "sgn (c * m) * sgn c * m = m"
    using assms by (cases "m = 0") (simp_all add: sgn_mult)
  ultimately show ?thesis using assms by (simp add: int_truediv_def)
qed

lemma int_truediv_zero [simp]: "int_truediv a 0 = Inl ZeroDivisionError"
  by (simp add: int_truediv_def)

lemma chunks_nth_nth:
  assumes "a < m" and "b < c" and "m * c \<le> length xs"
  shows "chunks c m xs ! a ! b = xs ! (a * c + b)"
proof -
  have "a * c + c \<le> m * c"
    using assms(1) by (metis Suc_leI mult_Suc mult_le_mono1 add.commute)
  with assms(3) have "a * c + b < length xs" using assms(2) by linarith
  with assms show ?thesis by (simp add: chunks_nth)
qed

lemma reshape2_infer:
  assumes "0 < c" and "length xs = m * nat c"
  shows "reshape2 xs (- 1) c = Inr \<lparr>nrows = m, ncols = nat c, vals = chunks (nat c) m xs\<rparr>"
  using assms by (simp add: reshape2_def Let_def)

lemma reshape2_infer_InrD:
  assumes "reshape2 xs (- 1) c = Inr a"
  shows "0 < c \<and> length xs mod nat c = 0"
  using assms by (auto simp: reshape2_def Let_def split: if_splits)


subsection \<open>The buffered reader\<close>

lemma slice_range_nat:
  "a + k \<le> len \<Longrightarrow> slice_range (int a) (int a + int k) len = (a, k)"
  by (simp add: slice_range_def slice_norm_def)

lemma loop_body_ok:
  fixes C :: int and m l R nOff :: nat
  assumes C: "0 < C"
    and len: "nbytes ty * (nat C * m) \<le> length fid"
    and lm: "l + m \<le> R"
  shows "loop_body ty C nOff (C * int m) (int l) (tabulate2 R (nat C + nOff) g) fid =
     (Inr (int m,
           tabulate2 R (nat C + nOff) (\<lambda>i j.
             if l \<le> i \<and> i < l + m \<and> nOff \<le> j
             then unpack1 ty (take (nbytes ty)
                    (drop (nbytes ty * ((i - l) * nat C + (j - nOff))) fid))
             else g i j)),
      drop (nbytes ty * (nat C * m)) fid)"
proof -
  define c where "c = nat C"
  define vs where "vs = map (unpack1 ty) (chunks (nbytes ty) (c * m) fid)"
  define buf where "buf = \<lparr>nrows = m, ncols = c, vals = chunks c m vs\<rparr>"
  have c: "0 < c" "C = int c" using C by (simp_all add: c_def)
  have n: "nat (C * int m) = c * m" by (simp add: c nat_mult_distrib)
  have d: "int_truediv (C * int m) C = Inr (int m)"
    using C by (simp add: int_truediv_mult)
  have f: "fread (C * int m) ty fid = (Inr vs, drop (nbytes ty * (c * m)) fid)"
    using fread_ok [of "C * int m" ty fid] len C by (simp add: n vs_def c_def)
  have lv: "length vs = m * c" by (simp add: vs_def mult.commute)
  have r: "reshape2 vs (- 1) C = Inr buf"
    using reshape2_infer [of C vs m] C lv by (simp add: buf_def c_def)
  have rows: "slice_range (int l) (int l + int m) R = (l, m)"
    using lm by (rule slice_range_nat)
  have cols: "slice_range (int nOff) (int nOff + C) (c + nOff) = (nOff, c)"
    using slice_range_nat [of nOff c "c + nOff"] by (simp add: c)
  have s: "setitem_block (tabulate2 R (c + nOff) g) (int l) (int l + int m)
             (int nOff) (int nOff + C) buf =
           Inr (tabulate2 R (c + nOff) (\<lambda>i j.
             if l \<le> i \<and> i < l + m \<and> nOff \<le> j
             then unpack1 ty (take (nbytes ty)
                    (drop (nbytes ty * ((i - l) * c + (j - nOff))) fid))
             else g i j))"
  proof -
    have "tabulate2 R (c + nOff) (\<lambda>i j.
             if l \<le> i \<and> i < l + m \<and> nOff \<le> j \<and> j < nOff + c
             then at2 buf (bidx (nrows buf) (i - l)) (bidx (ncols buf) (j - nOff))
             else at2 (tabulate2 R (c + nOff) g) i j) =
          tabulate2 R (c + nOff) (\<lambda>i j.
             if l \<le> i \<and> i < l + m \<and> nOff \<le> j
             then unpack1 ty (take (nbytes ty)
                    (drop (nbytes ty * ((i - l) * c + (j - nOff))) fid))
             else g i j)"
    proof (rule tabulate2_cong)
      fix i j
      assume i: "i < R" and j: "j < c + nOff"
      show "(if l \<le> i \<and> i < l + m \<and> nOff \<le> j \<and> j < nOff + c
             then at2 buf (bidx (nrows buf) (i - l)) (bidx (ncols buf) (j - nOff))
             else at2 (tabulate2 R (c + nOff) g) i j) =
            (if l \<le> i \<and> i < l + m \<and> nOff \<le> j
             then unpack1 ty (take (nbytes ty)
                    (drop (nbytes ty * ((i - l) * c + (j - nOff))) fid))
             else g i j)"
      proof (cases "l \<le> i \<and> i < l + m \<and> nOff \<le> j")
        case True
        then have a: "i - l < m" and b: "j - nOff < c" using j by auto
        have "(i - l) * c + c \<le> m * c"
          using a by (metis Suc_leI mult_Suc mult_le_mono1 add.commute)
        with b have k: "(i - l) * c + (j - nOff) < c * m"
          by (simp add: mult.commute)
        have "at2 buf (i - l) (j - nOff) = vs ! ((i - l) * c + (j - nOff))"
          using a b lv by (simp add: at2_def buf_def chunks_nth_nth)
        also have "\<dots> = unpack1 ty (take (nbytes ty)
                    (drop (nbytes ty * ((i - l) * c + (j - nOff))) fid))"
          using k by (simp add: vs_def chunks_nth mult.commute)
        finally show ?thesis using True a b j by (simp add: buf_def)
      next
        case False
        then show ?thesis using i j by auto
      qed
    qed
    moreover have "nrows buf = m" "ncols buf = c" by (simp_all add: buf_def)
    ultimately show ?thesis
      by (simp add: setitem_block_def rows cols)
  qed
  show ?thesis
    unfolding loop_body_def
    by (simp add: io_bind_def io_lift_def io_return_def d f [unfolded c_def] r
        s [unfolded c_def])
qed

lemma loop_body_short:
  fixes C :: int and m :: nat
  assumes C: "0 < C" and len: "length fid < nbytes ty * (nat C * m)"
  shows "\<exists>e fid'. loop_body ty C nOff (C * int m) nLinesRead data fid = (Inl e, fid')"
proof -
  have n: "nat (C * int m) = nat C * m" using C by (simp add: nat_mult_distrib)
  have d: "int_truediv (C * int m) C = Inr (int m)"
    using C by (simp add: int_truediv_mult)
  have "fread (C * int m) ty fid = (Inl StructError, [])"
    using fread_short [of "C * int m" fid ty] len C by (simp add: n)
  then show ?thesis
    unfolding loop_body_def by (simp add: io_bind_def io_lift_def d)
qed

lemma min_mult_int:
  fixes C :: int
  assumes "0 < C"
  shows "min (C * a) (C * b) = C * min a b"
  using assms by (simp add: min_def)

lemma read_loop_ok:
  fixes C B :: int and L R l nOff :: nat
  assumes C: "0 < C" and B: "B = C * int L" and L: "0 < L"
    and l: "l \<le> R"
    and len: "nbytes ty * (nat C * (R - l)) \<le> length fid"
  shows "read_loop ty (int R * C) B C nOff
           (int l * C, int l, tabulate2 R (nat C + nOff) g) fid =
         Some (Inr (tabulate2 R (nat C + nOff) (\<lambda>i j.
                      if l \<le> i \<and> nOff \<le> j
                      then unpack1 ty (take (nbytes ty)
                             (drop (nbytes ty * ((i - l) * nat C + (j - nOff))) fid))
                      else g i j)),
               drop (nbytes ty * (nat C * (R - l))) fid)"
  using l len
proof (induction "R - l" arbitrary: l g fid rule: less_induct)
  case less
  define c where "c = nat C"
  define nb where "nb = nbytes ty"
  show ?case
  proof (cases "l = R")
    case True
    have e: "tabulate2 R (nat C + nOff) (\<lambda>i j.
            if l \<le> i \<and> nOff \<le> j
            then unpack1 ty (take (nbytes ty)
                   (drop (nbytes ty * ((i - l) * nat C + (j - nOff))) fid))
            else g i j) = tabulate2 R (nat C + nOff) g"
      by (rule tabulate2_cong) (simp add: True)
    show ?thesis
      unfolding e by (subst read_loop.simps) (simp add: True)
  next
    case False
    with less.prems have lR: "l < R" by simp
    define m where "m = min (R - l) L"
    have m: "0 < m" "m \<le> R - l" "l + m \<le> R" using lR L by (simp_all add: m_def)
    have k: "min (int R * C - int l * C) B = C * int m"
    proof -
      have "int R * C - int l * C = C * int (R - l)"
        using lR by (simp add: algebra_simps of_nat_diff)
      then show ?thesis
        using C by (simp add: B min_mult_int m_def)
    qed
    have lt: "int l * C < int R * C" using lR C by simp
    have "nbytes ty * (nat C * m) \<le> nbytes ty * (nat C * (R - l))"
      using m(2) by (intro mult_le_mono2)
    with less.prems(2) have len1: "nbytes ty * (nat C * m) \<le> length fid"
      by (rule order_trans [rotated])
    define g' where "g' = (\<lambda>i j.
             if l \<le> i \<and> i < l + m \<and> nOff \<le> j
             then unpack1 ty (take (nbytes ty)
                    (drop (nbytes ty * ((i - l) * nat C + (j - nOff))) fid))
             else g i j)"
    define fid' where "fid' = drop (nbytes ty * (nat C * m)) fid"
    have body: "loop_body ty C nOff (C * int m) (int l) (tabulate2 R (nat C + nOff) g) fid =
        (Inr (int m, tabulate2 R (nat C + nOff) g'), fid')"
      unfolding g'_def fid'_def using C len1 m(3) by (rule loop_body_ok)
    have "R - l = m + (R - (l + m))" using m(2) by arith
    then have "nat C * (R - l) = nat C * (m + (R - (l + m)))" by simp
    then have split: "nat C * (R - l) = nat C * m + nat C * (R - (l + m))"
      by (simp only: distrib_left)
    have len2: "nbytes ty * (nat C * (R - (l + m))) \<le> length fid'"
      using less.prems(2) by (simp add: fid'_def split distrib_left)
    have ih: "read_loop ty (int R * C) B C nOff
           (int (l + m) * C, int (l + m), tabulate2 R (nat C + nOff) g') fid' =
         Some (Inr (tabulate2 R (nat C + nOff) (\<lambda>i j.
                      if l + m \<le> i \<and> nOff \<le> j
                      then unpack1 ty (take (nbytes ty)
                             (drop (nbytes ty * ((i - (l + m)) * nat C + (j - nOff))) fid'))
                      else g' i j)),
               drop (nbytes ty * (nat C * (R - (l + m)))) fid')"
      using m by (intro less.hyps len2) simp_all
    have fin: "tabulate2 R (nat C + nOff) (\<lambda>i j.
                      if l + m \<le> i \<and> nOff \<le> j
                      then unpack1 ty (take (nbytes ty)
                             (drop (nbytes ty * ((i - (l + m)) * nat C + (j - nOff))) fid'))
                      else g' i j) =
               tabulate2 R (nat C + nOff) (\<lambda>i j.
                      if l \<le> i \<and> nOff \<le> j
                      then unpack1 ty (take (nbytes ty)
                             (drop (nbytes ty * ((i - l) * nat C + (j - nOff))) fid))
                      else g i j)"
    proof (rule tabulate2_cong)
      fix i j
      assume "i < R" "j < nat C + nOff"
      show "(if l + m \<le> i \<and> nOff \<le> j
             then unpack1 ty (take (nbytes ty)
                    (drop (nbytes ty * ((i - (l + m)) * nat C + (j - nOff))) fid'))
             else g' i j) =
            (if l \<le> i \<and> nOff \<le> j
             then unpack1 ty (take (nbytes ty)
                    (drop (nbytes ty * ((i - l) * nat C + (j - nOff))) fid))
             else g i j)"
      proof (cases "l + m \<le> i \<and> nOff \<le> j")
        case True
        then have "i - l = (i - (l + m)) + m" by simp
        then have "nbytes ty * ((i - (l + m)) * nat C + (j - nOff)) + nbytes ty * (nat C * m) =
              nbytes ty * ((i - l) * nat C + (j - nOff))"
          by (simp add: algebra_simps)
        with True show ?thesis by (simp add: fid'_def)
      next
        case False
        then show ?thesis by (auto simp: g'_def)
      qed
    qed
    have dr: "drop (nbytes ty * (nat C * (R - (l + m)))) fid' =
              drop (nbytes ty * (nat C * (R - l))) fid"
      by (simp add: fid'_def split distrib_left add.commute)
    have st: "(int l * C + C * int m, int l + int m, tabulate2 R (nat C + nOff) g') =
              (int (l + m) * C, int (l + m), tabulate2 R (nat C + nOff) g')"
      by (simp add: algebra_simps)
    show ?thesis
      apply (subst read_loop.simps)
      apply (simp only: prod.case lt if_True Let_def k body sum.case st ih fin dr)
      done
  qed
qed

lemma read_loop_short:
  fixes C B :: int and L R l nOff :: nat
  assumes C: "0 < C" and B: "B = C * int L" and L: "0 < L"
    and l: "l \<le> R"
    and len: "length fid < nbytes ty * (nat C * (R - l))"
  shows "\<exists>fid'. read_loop ty (int R * C) B C nOff
           (int l * C, int l, tabulate2 R (nat C + nOff) g) fid = Some (Inl TypeError, fid')"
  using l len
proof (induction "R - l" arbitrary: l g fid rule: less_induct)
  case less
  from less.prems have lR: "l < R" by (cases "l = R") simp_all
  define m where "m = min (R - l) L"
  have m: "0 < m" "m \<le> R - l" "l + m \<le> R" using lR L by (simp_all add: m_def)
  have k: "min (int R * C - int l * C) B = C * int m"
  proof -
    have "int R * C - int l * C = C * int (R - l)"
      using lR by (simp add: algebra_simps of_nat_diff)
    then show ?thesis
      using C by (simp add: B min_mult_int m_def)
  qed
  have lt: "int l * C < int R * C" using lR C by simp
  show ?case
  proof (cases "length fid < nbytes ty * (nat C * m)")
    case True
    from loop_body_short [OF C True]
    obtain e fid' where
      "loop_body ty C nOff (C * int m) (int l) (tabulate2 R (nat C + nOff) g) fid = (Inl e, fid')"
      by blast
    then show ?thesis
      by (subst read_loop.simps) (simp add: lt k)
  next
    case False
    then have len1: "nbytes ty * (nat C * m) \<le> length fid" by simp
    define g' where "g' = (\<lambda>i j.
             if l \<le> i \<and> i < l + m \<and> nOff \<le> j
             then unpack1 ty (take (nbytes ty)
                    (drop (nbytes ty * ((i - l) * nat C + (j - nOff))) fid))
             else g i j)"
    define fid' where "fid' = drop (nbytes ty * (nat C * m)) fid"
    have body: "loop_body ty C nOff (C * int m) (int l) (tabulate2 R (nat C + nOff) g) fid =
        (Inr (int m, tabulate2 R (nat C + nOff) g'), fid')"
      unfolding g'_def fid'_def using C len1 m(3) by (rule loop_body_ok)
    have "R - l = m + (R - (l + m))" using m(2) by arith
    then have "nat C * (R - l) = nat C * (m + (R - (l + m)))" by simp
    then have split: "nat C * (R - l) = nat C * m + nat C * (R - (l + m))"
      by (simp only: distrib_left)
    have len2: "length fid' < nbytes ty * (nat C * (R - (l + m)))"
      using less.prems(2) len1 by (simp add: fid'_def split distrib_left)
    have "\<exists>fid''. read_loop ty (int R * C) B C nOff
           (int (l + m) * C, int (l + m), tabulate2 R (nat C + nOff) g') fid' =
         Some (Inl TypeError, fid'')"
      using m by (intro less.hyps len2) simp_all
    then obtain fid'' where ih: "read_loop ty (int R * C) B C nOff
           (int (l + m) * C, int (l + m), tabulate2 R (nat C + nOff) g') fid' =
         Some (Inl TypeError, fid'')" ..
    have st: "(int l * C + C * int m, int l + int m, tabulate2 R (nat C + nOff) g') =
              (int (l + m) * C, int (l + m), tabulate2 R (nat C + nOff) g')"
      by (simp add: algebra_simps)
    show ?thesis
      apply (subst read_loop.simps)
      apply (simp only: prod.case lt if_True Let_def k body sum.case st ih)
      apply blast
      done
  qed
qed

lemma read_loop_total:
  assumes "0 < B"
  shows "\<exists>r. read_loop ty n B nCols nOff (nIntRead, nLinesRead, data) fid = Some r"
proof (induction "nat (n - nIntRead)" arbitrary: nIntRead nLinesRead data fid rule: less_induct)
  case less
  show ?case
  proof (cases "nIntRead < n")
    case False
    then show ?thesis by (subst read_loop.simps) simp
  next
    case True
    define k where "k = min (n - nIntRead) B"
    have k: "0 < k" using True assms by (simp add: k_def)
    show ?thesis
    proof (cases "loop_body ty nCols nOff k nLinesRead data fid")
      case (Pair r fid')
      show ?thesis
      proof (cases r)
        case (Inl e)
        with Pair True show ?thesis
          by (subst read_loop.simps) (simp add: k_def [symmetric])
      next
        case (Inr v)
        obtain a d where v: "v = (a, d)" by (cases v)
        have "nat (n - (nIntRead + k)) < nat (n - nIntRead)" using k True by simp
        from less.hyps [OF this]
        obtain r' where "read_loop ty n B nCols nOff (nIntRead + k, nLinesRead + a, d) fid' = Some r'"
          by blast
        with Pair Inr v True show ?thesis
          by (subst read_loop.simps) (simp add: k_def [symmetric])
      qed
    qed
  qed
qed

lemma int_truediv_mult_gen:
  assumes "c \<noteq> 0"
  shows "int_truediv (m * c) c = Inr m"
proof -
  have "\<bar>m * c\<bar> div \<bar>c\<bar> = \<bar>m\<bar>" using assms by (simp add: abs_mult)
  moreover have "sgn (m * c) * sgn c * \<bar>m\<bar> = m"
  proof -
    have "sgn c * sgn c = 1" using assms by (simp add: sgn_if)
    then have "sgn (m * c) * sgn c * \<bar>m\<bar> = sgn m * \<bar>m\<bar>"
      by (simp add: sgn_mult mult.assoc)
    then show ?thesis by (simp add: sgn_mult_abs)
  qed
  ultimately show ?thesis using assms by (simp add: int_truediv_def)
qed

lemma int_truediv_pos:
  assumes "0 \<le> a" and "0 < c"
  shows "int_truediv a c = Inr (a div c)"
  using assms by (cases "a = 0") (simp_all add: int_truediv_def)

lemma np_zeros_nat:
  "0 \<le> r \<Longrightarrow> 0 \<le> c \<Longrightarrow> np_zeros r c = Inr (tabulate2 (nat r) (nat c) (\<lambda>i j. f64_zero))"
  by (simp add: np_zeros_def np_full_def)

lemma iop_bind_Some [simp]:
  "iop_bind (iop_of (io_lift (Inr v))) f fid = f v fid"
  "iop_bind (iop_of (io_lift (Inl e))) f fid = Some (Inl e, fid)"
  by (simp_all add: iop_bind_def iop_of_def io_lift_def)

lemma buffered_zero_cols:
  "freadRowOrderTableBuffered n ty 0 nOff fid = Some (Inl ZeroDivisionError, fid)"
  by (simp add: freadRowOrderTableBuffered_def)

lemma buffered_many_cols:
  assumes "GoodBufferSize < \<bar>nCols\<bar>"
  shows "freadRowOrderTableBuffered n ty nCols nOff fid = Some (Inl ZeroDivisionError, fid)"
proof -
  have nz: "nCols \<noteq> 0" using assms by (auto simp: GoodBufferSize_def)
  have "\<bar>GoodBufferSize\<bar> div \<bar>nCols\<bar> = 0"
    using assms by (simp add: GoodBufferSize_def div_pos_pos_trivial)
  then have l: "int_truediv GoodBufferSize nCols = Inr 0"
    using nz by (simp add: int_truediv_def)
  obtain q where q: "int_truediv n nCols = Inr q"
    using nz by (simp add: int_truediv_def)
  show ?thesis
    by (simp add: freadRowOrderTableBuffered_def q l)
qed

lemma buffered_neg_rows:
  assumes "0 < C" and "C \<le> GoodBufferSize" and "nt < 0"
  shows "freadRowOrderTableBuffered (nt * C) ty C nOff fid = Some (Inl ValueError, fid)"
proof -
  have q: "int_truediv (nt * C) C = Inr nt"
    using assms(1) by (simp add: int_truediv_mult_gen)
  have l: "int_truediv GoodBufferSize C = Inr (GoodBufferSize div C)"
    using assms(1) by (simp add: int_truediv_pos GoodBufferSize_def)
  have L: "0 < GoodBufferSize div C"
    using assms(1,2) by (simp add: pos_imp_zdiv_pos_iff)
  then have B: "C * (GoodBufferSize div C) \<noteq> 0" using assms(1) by simp
  obtain b where b: "int_truediv (nt * C) (C * (GoodBufferSize div C)) = Inr b"
    using B by (simp add: int_truediv_def)
  have z: "np_zeros nt (C + int nOff) = Inl ValueError"
    using assms(3) by (simp add: np_zeros_def np_full_def)
  show ?thesis
    by (simp add: freadRowOrderTableBuffered_def q l b z Let_def)
qed

lemma buffered_setup:
  assumes "0 < C" and "C \<le> GoodBufferSize" and "0 \<le> nt"
  shows "freadRowOrderTableBuffered (nt * C) ty C nOff fid =
         read_loop ty (int (nat nt) * C) (C * int (nat (GoodBufferSize div C))) C nOff
           (int 0 * C, int 0, tabulate2 (nat nt) (nat C + nOff) (\<lambda>i j. f64_zero)) fid"
    and "0 < nat (GoodBufferSize div C)"
proof -
  have q: "int_truediv (nt * C) C = Inr nt"
    using assms(1) by (simp add: int_truediv_mult_gen)
  have l: "int_truediv GoodBufferSize C = Inr (GoodBufferSize div C)"
    using assms(1) by (simp add: int_truediv_pos GoodBufferSize_def)
  have L: "0 < GoodBufferSize div C"
    using assms(1,2) by (simp add: pos_imp_zdiv_pos_iff)
  then show "0 < nat (GoodBufferSize div C)" by simp
  have B: "C * (GoodBufferSize div C) \<noteq> 0" using L assms(1) by simp
  obtain b where b: "int_truediv (nt * C) (C * (GoodBufferSize div C)) = Inr b"
    using B by (simp add: int_truediv_def)
  have z: "np_zeros nt (C + int nOff) =
      Inr (tabulate2 (nat nt) (nat C + nOff) (\<lambda>i j. f64_zero))"
    using assms np_zeros_nat [of nt "C + int nOff"] by (simp add: nat_add_distrib)
  show "freadRowOrderTableBuffered (nt * C) ty C nOff fid =
         read_loop ty (int (nat nt) * C) (C * int (nat (GoodBufferSize div C))) C nOff
           (int 0 * C, int 0, tabulate2 (nat nt) (nat C + nOff) (\<lambda>i j. f64_zero)) fid"
    using assms(3) L by (simp add: freadRowOrderTableBuffered_def q l b z Let_def)
qed

lemma buffered_ok:
  assumes "0 < C" and "C \<le> GoodBufferSize" and "0 \<le> nt"
    and "nbytes ty * (nat C * nat nt) \<le> length fid"
  shows "freadRowOrderTableBuffered (nt * C) ty C nOff fid =
         Some (Inr (tabulate2 (nat nt) (nat C + nOff) (\<lambda>i j.
                      if nOff \<le> j
                      then unpack1 ty (take (nbytes ty)
                             (drop (nbytes ty * (i * nat C + (j - nOff))) fid))
                      else f64_zero)),
               drop (nbytes ty * (nat C * nat nt)) fid)"
proof -
  note s = buffered_setup [OF assms(1-3)]
  have "read_loop ty (int (nat nt) * C) (C * int (nat (GoodBufferSize div C))) C nOff
           (int 0 * C, int 0, tabulate2 (nat nt) (nat C + nOff) (\<lambda>i j. f64_zero)) fid =
         Some (Inr (tabulate2 (nat nt) (nat C + nOff) (\<lambda>i j.
                      if 0 \<le> i \<and> nOff \<le> j
                      then unpack1 ty (take (nbytes ty)
                             (drop (nbytes ty * ((i - 0) * nat C + (j - nOff))) fid))
                      else f64_zero)),
               drop (nbytes ty * (nat C * (nat nt - 0))) fid)"
    using assms s(2) by (intro read_loop_ok [where L = "nat (GoodBufferSize div C)"]) simp_all
  moreover have "tabulate2 (nat nt) (nat C + nOff) (\<lambda>i j.
                      if 0 \<le> i \<and> nOff \<le> j
                      then unpack1 ty (take (nbytes ty)
                             (drop (nbytes ty * ((i - 0) * nat C + (j - nOff))) fid))
                      else f64_zero) =
        tabulate2 (nat nt) (nat C + nOff) (\<lambda>i j.
                      if nOff \<le> j
                      then unpack1 ty (take (nbytes ty)
                             (drop (nbytes ty * (i * nat C + (j - nOff))) fid))
                      else f64_zero)"
    by (rule tabulate2_cong) simp
  ultimately show ?thesis by (simp only: s(1) diff_zero)
qed

lemma buffered_short:
  assumes "0 < C" and "C \<le> GoodBufferSize" and "0 \<le> nt"
    and "length fid < nbytes ty * (nat C * nat nt)"
  shows "\<exists>fid'. freadRowOrderTableBuffered (nt * C) ty C nOff fid = Some (Inl TypeError, fid')"
proof -
  note s = buffered_setup [OF assms(1-3)]
  have "\<exists>fid'. read_loop ty (int (nat nt) * C) (C * int (nat (GoodBufferSize div C))) C nOff
           (int 0 * C, int 0, tabulate2 (nat nt) (nat C + nOff) (\<lambda>i j. f64_zero)) fid =
         Some (Inl TypeError, fid')"
    using assms s(2) by (intro read_loop_short [where L = "nat (GoodBufferSize div C)"]) simp_all
  then show ?thesis by (simp add: s(1))
qed

lemma buffered_total:
  "\<exists>r. freadRowOrderTableBuffered n ty nCols nOff fid = Some r"
proof (cases "nCols = 0")
  case True
  then show ?thesis by (simp add: buffered_zero_cols)
next
  case False
  then obtain q l where q: "int_truediv n nCols = Inr q"
    and l: "int_truediv GoodBufferSize nCols = Inr l"
    and lv: "l = sgn GoodBufferSize * sgn nCols * (\<bar>GoodBufferSize\<bar> div \<bar>nCols\<bar>)"
    by (simp add: int_truediv_def)
  have B0: "0 \<le> nCols * l"
  proof -
    have "nCols * l = \<bar>nCols\<bar> * (\<bar>GoodBufferSize\<bar> div \<bar>nCols\<bar>)"
      by (simp add: lv GoodBufferSize_def sgn_if abs_if)
    moreover have "0 < \<bar>nCols\<bar>" using False by simp
    then have "0 \<le> \<bar>GoodBufferSize\<bar> div \<bar>nCols\<bar>"
      by (simp add: pos_imp_zdiv_nonneg_iff)
    ultimately show ?thesis by (simp add: zero_le_mult_iff)
  qed
  show ?thesis
  proof (cases "nCols * l = 0")
    case True
    show ?thesis
      by (simp add: freadRowOrderTableBuffered_def q l Let_def True)
  next
    case nz: False
    from B0 nz have B: "0 < nCols * l" by (simp only: order_le_less) metis
    obtain b where b: "int_truediv n (nCols * l) = Inr b"
      using nz by (simp add: int_truediv_def)
    show ?thesis
    proof (cases "np_zeros q (nCols + int nOff)")
      case (Inl e)
      then show ?thesis
        by (simp add: freadRowOrderTableBuffered_def q l b Let_def)
    next
      case (Inr data)
      from read_loop_total [OF B, of ty n nCols nOff 0 0 data fid] Inr show ?thesis
        by (simp add: freadRowOrderTableBuffered_def q l b Let_def)
    qed
  qed
qed


subsection \<open>The channel time series\<close>

lemma read_PackedTime_InrD:
  assumes "read_PackedTime h fid = (Inr pt, fid1)"
  shows "pt = (if FileID h = 1 then map le_int (chunks 4 (nat (NT h)) fid) else [])
       \<and> fid1 = drop (if FileID h = 1 then 4 * nat (NT h) else 0) fid
       \<and> (if FileID h = 1 then 4 * nat (NT h) else 0) \<le> length fid
       \<and> (FileID h = 1 \<longrightarrow> 0 \<le> NT h)"
proof (cases "FileID h = 1")
  case False
  with assms show ?thesis by (simp add: read_PackedTime_def io_return_def)
next
  case True
  with assms obtain v fid2 where f: "fread (NT h) int32 fid = (Inr v, fid2)"
    and k: "(let cnt = int (length v)
             in if cnt < NT h then io_raise (TruncatedFile cnt (NT h)) else io_return v) fid2
            = (Inr pt, fid1)"
    by (auto simp: read_PackedTime_def elim!: io_bind_InrD)
  from fread_nonneg [OF f] have n: "0 \<le> NT h" by simp
  from fread_InrD [OF f] have v: "v = map le_int (chunks 4 (nat (NT h)) fid)"
    and fid2: "fid2 = drop (4 * nat (NT h)) fid" and l: "4 * nat (NT h) \<le> length fid"
    by (simp_all add: int32_def)
  from k v n have "pt = v" "fid1 = fid2"
    by (simp_all add: Let_def io_return_def)
  with True v fid2 l n show ?thesis by simp
qed

lemma read_PackedTime_ok:
  assumes "FileID h = 1 \<Longrightarrow> 0 \<le> NT h \<and> 4 * nat (NT h) \<le> length fid"
  shows "read_PackedTime h fid =
           (Inr (if FileID h = 1 then map le_int (chunks 4 (nat (NT h)) fid) else []),
            drop (if FileID h = 1 then 4 * nat (NT h) else 0) fid)"
proof (cases "FileID h = 1")
  case False
  then show ?thesis by (simp add: read_PackedTime_def io_return_def)
next
  case True
  with assms have n: "0 \<le> NT h" and l: "nbytes int32 * nat (NT h) \<le> length fid" by simp_all
  from fread_ok [OF n l] True n show ?thesis
    by (simp add: read_PackedTime_def io_bind_def Let_def io_return_def unpack1_simps [abs_def]
        int32_def)
qed

lemma nbytes_payload: "nbytes (payload_dtype fmt) = (if fmt = 3 then 8 else 2)"
  by (simp add: payload_dtype_def)

lemma chunks_tabulate2:
  assumes "length xs = r * c"
  shows "\<lparr>nrows = r, ncols = c, vals = chunks c r xs\<rparr> = tabulate2 r c (\<lambda>i j. xs ! (i * c + j))"
proof -
  have "chunks c r xs = map (\<lambda>i. map (\<lambda>j. xs ! (i * c + j)) [0..<c]) [0..<r]"
  proof (rule nth_equalityI)
    show "length (chunks c r xs) = length (map (\<lambda>i. map (\<lambda>j. xs ! (i * c + j)) [0..<c]) [0..<r])"
      by simp
  next
    fix i
    assume "i < length (chunks c r xs)"
    then have i: "i < r" by simp
    then have "i * c + c \<le> r * c"
      by (metis Suc_leI mult_Suc mult_le_mono1 add.commute)
    with assms have l: "i * c + c \<le> length xs" by simp
    have "take c (drop (i * c) xs) = map (\<lambda>j. xs ! (i * c + j)) [0..<c]"
      using l by (intro nth_equalityI) simp_all
    with i show "chunks c r xs ! i = map (\<lambda>i. map (\<lambda>j. xs ! (i * c + j)) [0..<c]) [0..<r] ! i"
      by (simp add: chunks_nth)
  qed
  then show ?thesis by (simp add: tabulate2_def)
qed

lemma read_data_unbuffered_InrD:
  assumes "read_data False h fid = Some (Inr data, fid')" and C: "0 \<le> NumOutChans h"
  shows "0 \<le> NT h
       \<and> nbytes (payload_dtype (FileID h)) * (nat (NumOutChans h) * nat (NT h)) \<le> length fid
       \<and> data = tabulate2 (nat (NT h)) (nat (NumOutChans h)) (\<lambda>i j.
                    unpack1 (payload_dtype (FileID h))
                      (take (nbytes (payload_dtype (FileID h)))
                         (drop (nbytes (payload_dtype (FileID h)) * (i * nat (NumOutChans h) + j))
                            fid)))
       \<and> fid' = drop (nbytes (payload_dtype (FileID h)) * (nat (NumOutChans h) * nat (NT h))) fid"
proof -
  define ty where "ty = payload_dtype (FileID h)"
  define n where "n = NT h * NumOutChans h"
  define c where "c = nat (NumOutChans h)"
  have nb: "0 < nbytes ty" "2 \<le> nbytes ty" by (simp_all add: ty_def nbytes_payload)
  from assms(1) have "io_bind (fread n ty) (\<lambda>PackedData.
           let cnt = int (length PackedData)
           in if cnt < n then io_raise (TruncatedFile cnt n)
              else io_lift (reshape2 PackedData (NT h) (NumOutChans h))) fid = (Inr data, fid')"
    unfolding n_def ty_def
    by (simp add: read_data_def iop_of_def Let_def payload_dtype_def split: if_splits)
  then obtain v fid1 where f: "fread n ty fid = (Inr v, fid1)"
    and k: "(let cnt = int (length v)
             in if cnt < n then io_raise (TruncatedFile cnt n)
                else io_lift (reshape2 v (NT h) (NumOutChans h))) fid1 = (Inr data, fid')"
    by (rule io_bind_InrD)
  from fread_nonneg [OF f nb(2)] have n0: "0 \<le> n" .
  from fread_InrD [OF f nb(1)] have v: "v = map (unpack1 ty) (chunks (nbytes ty) (nat n) fid)"
    and fid1: "fid1 = drop (nbytes ty * nat n) fid" and l: "nbytes ty * nat n \<le> length fid"
    by simp_all
  have lv: "length v = nat n" by (simp add: v)
  from k lv n0 have r: "reshape2 v (NT h) (NumOutChans h) = Inr data" and fid': "fid' = fid1"
    by (simp_all add: Let_def io_lift_def)
  have nt: "0 \<le> NT h"
  proof (rule ccontr)
    assume "\<not> 0 \<le> NT h"
    then have neg: "NT h < 0" by simp
    show False
    proof (cases "NumOutChans h = 0")
      case True
      with r neg show False by (simp add: reshape2_def Let_def split: if_splits)
    next
      case False
      with C have "0 < NumOutChans h" by simp
      with neg have "n < 0" by (simp add: n_def mult_neg_pos)
      with n0 show False by simp
    qed
  qed
  have nn: "nat n = nat (NT h) * c"
    using nt C by (simp add: n_def c_def nat_mult_distrib)
  have d: "data = \<lparr>nrows = nat (NT h), ncols = c, vals = chunks c (nat (NT h)) v\<rparr>"
  proof -
    have "NT h \<noteq> - 1" "NumOutChans h \<noteq> - 1" using nt C by simp_all
    with r nt C lv nn show ?thesis
      by (simp add: reshape2_def Let_def c_def split: if_splits)
  qed
  have "data = tabulate2 (nat (NT h)) c (\<lambda>i j. v ! (i * c + j))"
    unfolding d using lv nn by (intro chunks_tabulate2) simp
  also have "\<dots> = tabulate2 (nat (NT h)) c (\<lambda>i j.
        unpack1 ty (take (nbytes ty) (drop (nbytes ty * (i * c + j)) fid)))"
  proof (rule tabulate2_cong)
    fix i j
    assume i: "i < nat (NT h)" and j: "j < c"
    then have "i * c + c \<le> nat (NT h) * c"
      by (metis Suc_leI mult_Suc mult_le_mono1 add.commute)
    with j have "i * c + j < nat n" by (simp add: nn)
    then show "v ! (i * c + j) = unpack1 ty (take (nbytes ty) (drop (nbytes ty * (i * c + j)) fid))"
      by (simp add: v chunks_nth mult.commute)
  qed
  finally show ?thesis
    using nt l fid1 fid' by (simp add: nn ty_def c_def mult.commute)
qed

lemma read_data_buffered_InrD:
  assumes "read_data True h fid = Some (Inr data, fid')" and C: "0 \<le> NumOutChans h"
  shows "0 < NumOutChans h \<and> NumOutChans h \<le> GoodBufferSize \<and> 0 \<le> NT h
       \<and> nbytes (payload_dtype (FileID h)) * (nat (NumOutChans h) * nat (NT h)) \<le> length fid
       \<and> data = tabulate2 (nat (NT h)) (nat (NumOutChans h) + 1) (\<lambda>i j.
                    if 1 \<le> j
                    then unpack1 (payload_dtype (FileID h))
                      (take (nbytes (payload_dtype (FileID h)))
                         (drop (nbytes (payload_dtype (FileID h))
                                  * (i * nat (NumOutChans h) + (j - 1))) fid))
                    else f64_zero)
       \<and> fid' = drop (nbytes (payload_dtype (FileID h)) * (nat (NumOutChans h) * nat (NT h))) fid"
proof -
  define ty where "ty = payload_dtype (FileID h)"
  have b: "freadRowOrderTableBuffered (NT h * NumOutChans h) ty (NumOutChans h) 1 fid =
           Some (Inr data, fid')"
    using assms(1) by (simp add: read_data_def Let_def ty_def payload_dtype_def split: if_splits)
  have c0: "NumOutChans h \<noteq> 0"
    using b by (auto simp: buffered_zero_cols)
  with C have c1: "0 < NumOutChans h" by simp
  have c2: "NumOutChans h \<le> GoodBufferSize"
  proof (rule ccontr)
    assume "\<not> NumOutChans h \<le> GoodBufferSize"
    then have "GoodBufferSize < \<bar>NumOutChans h\<bar>" by simp
    from buffered_many_cols [OF this] b show False by simp
  qed
  have nt: "0 \<le> NT h"
  proof (rule ccontr)
    assume "\<not> 0 \<le> NT h"
    then have "NT h < 0" by simp
    from buffered_neg_rows [OF c1 c2 this] b show False by simp
  qed
  have l: "nbytes ty * (nat (NumOutChans h) * nat (NT h)) \<le> length fid"
  proof (rule ccontr)
    assume "\<not> nbytes ty * (nat (NumOutChans h) * nat (NT h)) \<le> length fid"
    then have "length fid < nbytes ty * (nat (NumOutChans h) * nat (NT h))" by simp
    from buffered_short [OF c1 c2 nt this, where nOff = 1] b show False by auto
  qed
  from buffered_ok [OF c1 c2 nt l, of 1] b
  have "data = tabulate2 (nat (NT h)) (nat (NumOutChans h) + 1) (\<lambda>i j.
                    if 1 \<le> j
                    then unpack1 ty (take (nbytes ty)
                           (drop (nbytes ty * (i * nat (NumOutChans h) + (j - 1))) fid))
                    else f64_zero)"
    and "fid' = drop (nbytes ty * (nat (NumOutChans h) * nat (NT h))) fid"
    by simp_all
  with c1 c2 nt l show ?thesis
    unfolding ty_def by blast
qed


subsection \<open>Time and scaling\<close>

lemma bdim_simps [simp]: "bdim a a = Some a" "bdim a 1 = Some a" "bdim 1 b = Some b"
  "bdim a (Suc 0) = Some a" "bdim (Suc 0) b = Some b"
  by (simp_all add: bdim_def)

lemma bidx_one [simp]: "bidx 1 i = 0" "bidx (Suc 0) i = 0"
  by (simp_all add: bidx_def)

lemma bc1_single_right: "bc1 f xs [y] = Inr (map (\<lambda>x. f x y) xs)"
proof -
  have "map (\<lambda>i. f (xs ! bidx (length xs) i) y) [0..<length xs] = map (\<lambda>x. f x y) xs"
    by (rule nth_equalityI) simp_all
  then show ?thesis by (simp add: bc1_def)
qed

lemma bc1_single_left: "bc1 f [x] ys = Inr (map (f x) ys)"
proof -
  have "map (\<lambda>i. f x (ys ! bidx (length ys) i)) [0..<length ys] = map (f x) ys"
    by (rule nth_equalityI) simp_all
  then show ?thesis by (simp add: bc1_def)
qed

lemma reconstruct_time_eq:
  assumes "TimeHdr h = (if FileID h = 1 then WithTime [a] [b] else WithoutTime [a] [b])"
  shows "reconstruct_time h pt =
         Inr (if FileID h = 1 then map (\<lambda>p. fdiv (fsub (f64_of_int p) b) a) pt
              else map (\<lambda>k. fadd a (fmul b (f64_of_int (int k)))) [0..<nat (NT h)])"
  using assms
  by (simp add: reconstruct_time_def bc1_single_right bc1_single_left err_bind_def arange_def
      comp_def)

lemma map_col_tabulate2:
  "map_col k f (tabulate2 r c g) = tabulate2 r c (\<lambda>i j. if j = k then f (g i j) else g i j)"
  unfolding map_col_def by (simp, rule tabulate2_cong) simp

lemma scale_cols_tabulate2:
  assumes "distinct cs" and "\<And>c. c \<in> set cs \<Longrightarrow> c + 1 < W"
  shows "scale_cols scl off cs (tabulate2 R W g) =
         Inr (tabulate2 R W (\<lambda>i j.
                if 1 \<le> j \<and> j - 1 \<in> set cs
                then (if isnan (col_item scl (j - 1)) \<and> isnan (col_item off (j - 1)) then f64_zero
                      else fdiv (fsub (g i j) (col_item off (j - 1))) (col_item scl (j - 1)))
                else g i j))"
  using assms
proof (induction cs arbitrary: g)
  case Nil
  then show ?case by simp
next
  case (Cons c cs)
  define dq where "dq = (\<lambda>k x. if isnan (col_item scl k) \<and> isnan (col_item off k) then f64_zero
                      else fdiv (fsub x (col_item off k)) (col_item scl k))"
  define g' where "g' = (\<lambda>i j. if j = c + 1 then dq c (g i j) else g i j)"
  have c: "c + 1 < W" "c \<notin> set cs" "distinct cs" using Cons.prems by simp_all
  have step: "scale_cols scl off (c # cs) (tabulate2 R W g) =
              scale_cols scl off cs (tabulate2 R W g')"
  proof (cases "isnan (col_item scl c) \<and> isnan (col_item off c)")
    case True
    then have "g' = (\<lambda>i j. if j = c + 1 then f64_zero else g i j)"
      unfolding g'_def dq_def by (intro ext) simp
    with True c(1) show ?thesis by (simp add: map_col_tabulate2)
  next
    case False
    then have "g' = (\<lambda>i j. if j = c + 1
                 then fdiv (fsub (g i j) (col_item off c)) (col_item scl c) else g i j)"
      unfolding g'_def dq_def by (intro ext) auto
    with False c(1) show ?thesis by (auto simp: map_col_tabulate2)
  qed
  have ih: "scale_cols scl off cs (tabulate2 R W g') =
         Inr (tabulate2 R W (\<lambda>i j.
                if 1 \<le> j \<and> j - 1 \<in> set cs then dq (j - 1) (g' i j) else g' i j))"
    unfolding dq_def using c(3) Cons.prems(2) by (intro Cons.IH) simp_all
  have "tabulate2 R W (\<lambda>i j.
                if 1 \<le> j \<and> j - 1 \<in> set cs then dq (j - 1) (g' i j) else g' i j) =
        tabulate2 R W (\<lambda>i j.
                if 1 \<le> j \<and> j - 1 \<in> set (c # cs) then dq (j - 1) (g i j) else g i j)"
  proof (rule tabulate2_cong)
    fix i j
    show "(if 1 \<le> j \<and> j - 1 \<in> set cs then dq (j - 1) (g' i j) else g' i j) =
          (if 1 \<le> j \<and> j - 1 \<in> set (c # cs) then dq (j - 1) (g i j) else g i j)"
      using c(2) by (cases "j = c + 1") (auto simp: g'_def)
  qed
  with step ih show ?case unfolding dq_def by simp
qed

lemma set_col0_tabulate2:
  assumes "length time = R" and "0 < W"
  shows "set_col0 (tabulate2 R W g) time =
         Inr (tabulate2 R W (\<lambda>i k. if k = 0 then time ! i else g i k))"
proof -
  have "tabulate2 R W (\<lambda>i k. if k = 0 then time ! bidx (length time) i
                              else at2 (tabulate2 R W g) i k) =
        tabulate2 R W (\<lambda>i k. if k = 0 then time ! i else g i k)"
    using assms by (intro tabulate2_cong) simp
  with assms show ?thesis by (simp add: set_col0_def)
qed

lemma bdim_idx:
  assumes "bdim r r' = Some R" and "i < R"
  shows "bidx r i < r" and "bidx r' i < r'"
  using assms by (auto simp: bdim_def bidx_def split: if_splits)

lemma bc2_tabulate2:
  "bc2 f (tabulate2 r c g) (tabulate2 r' c' k) =
     (case (bdim r r', bdim c c') of
        (Some R, Some C) \<Rightarrow>
          Inr (tabulate2 R C (\<lambda>i j. f (g (bidx r i) (bidx c j)) (k (bidx r' i) (bidx c' j))))
      | _ \<Rightarrow> Inl ValueError)"
proof (cases "bdim r r'")
  case None
  then show ?thesis by (simp add: bc2_def)
next
  case R: (Some R)
  show ?thesis
  proof (cases "bdim c c'")
    case None
    with R show ?thesis by (simp add: bc2_def)
  next
    case C: (Some C)
    have "tabulate2 R C (\<lambda>i j.
                 f (at2 (tabulate2 r c g) (bidx r i) (bidx c j))
                   (at2 (tabulate2 r' c' k) (bidx r' i) (bidx c' j))) =
          tabulate2 R C (\<lambda>i j. f (g (bidx r i) (bidx c j)) (k (bidx r' i) (bidx c' j)))"
    proof (rule tabulate2_cong)
      fix i j
      assume "i < R" "j < C"
      with bdim_idx [OF R] bdim_idx [OF C]
      show "f (at2 (tabulate2 r c g) (bidx r i) (bidx c j))
              (at2 (tabulate2 r' c' k) (bidx r' i) (bidx c' j)) =
            f (g (bidx r i) (bidx c j)) (k (bidx r' i) (bidx c' j))"
        by simp
    qed
    with R C show ?thesis by (simp add: bc2_def)
  qed
qed

lemma concatenate1_tabulate2:
  "concatenate1 (tabulate2 r c f) (tabulate2 r' c' g) =
     (if r = r' then Inr (tabulate2 r (c + c') (\<lambda>i j. if j < c then f i j else g i (j - c)))
      else Inl ValueError)"
proof (cases "r = r'")
  case False
  then show ?thesis by (simp add: concatenate1_def)
next
  case True
  have "tabulate2 r (c + c') (\<lambda>i j.
             if j < c then at2 (tabulate2 r c f) i j else at2 (tabulate2 r' c' g) i (j - c)) =
        tabulate2 r (c + c') (\<lambda>i j. if j < c then f i j else g i (j - c))"
    using True by (intro tabulate2_cong) auto
  with True show ?thesis by (simp add: concatenate1_def cong: if_cong)
qed

lemma reshape2_column:
  assumes "length xs = r"
  shows "reshape2 xs (int r) 1 = Inr (tabulate2 r 1 (\<lambda>i j. xs ! i))"
proof -
  have "\<lparr>nrows = r, ncols = 1, vals = chunks 1 r xs\<rparr> = tabulate2 r 1 (\<lambda>i j. xs ! (i * 1 + j))"
    using assms by (intro chunks_tabulate2) simp
  also have "\<dots> = tabulate2 r 1 (\<lambda>i j. xs ! i)"
    by (rule tabulate2_cong) simp
  finally show ?thesis using assms by (simp add: reshape2_def Let_def)
qed

lemma as_arr2_Tup: "as_arr2 (Tup xs) = tabulate2 1 (length xs) (\<lambda>i j. xs ! j)"
proof -
  have "[xs] = map (\<lambda>i. map (\<lambda>j. xs ! j) [0..<length xs]) [0..<1]"
    by (simp add: map_nth)
  then show ?thesis by (simp add: as_arr2_def tabulate2_def)
qed

lemma col_item_simps:
  "col_item (Tup xs) c = xs ! c"
  "c < n \<Longrightarrow> col_item (Arr (tabulate2 n 1 g)) c = g c 0"
  by (simp_all add: col_item_def)

lemma err_bind_Inr [simp]: "err_bind (Inr v) f = f v"
  and err_bind_Inl [simp]: "err_bind (Inl e) f = Inl e"
  by (simp_all add: err_bind_def)

lemma scale_data_buffered_eq:
  assumes "length time = R" and "NumOutChans h = int C"
  shows "scale_data True h (tabulate2 R (C + 1) g) time =
         Inr (tabulate2 R (C + 1) (\<lambda>i j.
                if j = 0 then time ! i
                else if isnan (col_item (ColScl h) (j - 1)) \<and> isnan (col_item (ColOff h) (j - 1))
                     then f64_zero
                     else fdiv (fsub (g i j) (col_item (ColOff h) (j - 1)))
                            (col_item (ColScl h) (j - 1))))"
proof -
  define dq where "dq = (\<lambda>k x.
      if isnan (col_item (ColScl h) k) \<and> isnan (col_item (ColOff h) k) then f64_zero
      else fdiv (fsub x (col_item (ColOff h) k)) (col_item (ColScl h) k))"
  define g1 where "g1 = (\<lambda>i j. if 1 \<le> j \<and> j - 1 \<in> set [0..<C] then dq (j - 1) (g i j) else g i j)"
  have s: "scale_cols (ColScl h) (ColOff h) [0..<C] (tabulate2 R (C + 1) g) =
         Inr (tabulate2 R (C + 1) g1)"
    unfolding g1_def dq_def by (rule scale_cols_tabulate2) simp_all
  have t: "set_col0 (tabulate2 R (C + 1) g1) time =
           Inr (tabulate2 R (C + 1) (\<lambda>i k. if k = 0 then time ! i else g1 i k))"
    using assms(1) by (intro set_col0_tabulate2) simp_all
  have e: "tabulate2 R (C + 1) (\<lambda>i k. if k = 0 then time ! i else g1 i k) =
           tabulate2 R (C + 1) (\<lambda>i j. if j = 0 then time ! i else dq (j - 1) (g i j))"
    by (rule tabulate2_cong) (auto simp: g1_def)
  have "scale_data True h (tabulate2 R (C + 1) g) time =
        err_bind (scale_cols (ColScl h) (ColOff h) [0..<C] (tabulate2 R (C + 1) g))
          (\<lambda>data. set_col0 data time)"
    by (simp add: scale_data_def assms(2))
  also have "\<dots> = Inr (tabulate2 R (C + 1) (\<lambda>i j. if j = 0 then time ! i else dq (j - 1) (g i j)))"
    by (simp only: s err_bind_Inr t e)
  finally show ?thesis unfolding dq_def .
qed

lemma tabulate2_concat_col:
  "tabulate2 R (1 + C) (\<lambda>i j. if j < 1 then t i else d i (j - 1)) =
   tabulate2 R (C + 1) (\<lambda>i j. if j = 0 then t i else d i (j - 1))"
proof -
  have "tabulate2 R (C + 1) (\<lambda>i j. if j < 1 then t i else d i (j - 1)) =
        tabulate2 R (C + 1) (\<lambda>i j. if j = 0 then t i else d i (j - 1))"
    by (rule tabulate2_cong) simp
  then show ?thesis by (simp only: add.commute [of 1 C])
qed

lemma scale_data_unbuffered_Tup:
  assumes "ColScl h = Tup sc" and "ColOff h = Tup ofs" and "length sc = C" and "length ofs = C"
    and "length time = R" and "NT h = int R"
  shows "scale_data False h (tabulate2 R C g) time =
         Inr (tabulate2 R (C + 1) (\<lambda>i j.
                if j = 0 then time ! i
                else fdiv (fsub (g i (j - 1)) (ofs ! (j - 1))) (sc ! (j - 1))))"
proof -
  define d1 where "d1 = (\<lambda>i j. fsub (g i j) (ofs ! j))"
  define d2 where "d2 = (\<lambda>i j. fdiv (d1 i j) (sc ! j))"
  have 1: "bc2 fsub (tabulate2 R C g) (as_arr2 (Tup ofs)) = Inr (tabulate2 R C d1)"
  proof -
    have "tabulate2 R C (\<lambda>i j. fsub (g (bidx R i) (bidx C j)) (ofs ! bidx C j)) =
          tabulate2 R C d1"
      unfolding d1_def by (rule tabulate2_cong) simp
    then show ?thesis by (simp add: as_arr2_Tup bc2_tabulate2 assms(4))
  qed
  have 2: "bc2 fdiv (tabulate2 R C d1) (as_arr2 (Tup sc)) = Inr (tabulate2 R C d2)"
  proof -
    have "tabulate2 R C (\<lambda>i j. fdiv (d1 (bidx R i) (bidx C j)) (sc ! bidx C j)) =
          tabulate2 R C d2"
      unfolding d2_def by (rule tabulate2_cong) simp
    then show ?thesis by (simp add: as_arr2_Tup bc2_tabulate2 assms(3))
  qed
  have 3: "reshape2 time (NT h) 1 = Inr (tabulate2 R 1 (\<lambda>i j. time ! i))"
    using reshape2_column [OF assms(5)] assms(6) by simp
  have 4: "concatenate1 (tabulate2 R 1 (\<lambda>i j. time ! i)) (tabulate2 R C d2) =
           Inr (tabulate2 R (C + 1) (\<lambda>i j. if j = 0 then time ! i else d2 i (j - 1)))"
    by (simp only: concatenate1_tabulate2 simp_thms if_True tabulate2_concat_col)
  have "scale_data False h (tabulate2 R C g) time =
        Inr (tabulate2 R (C + 1) (\<lambda>i j. if j = 0 then time ! i else d2 i (j - 1)))"
    unfolding scale_data_def by (simp only: if_False assms(1,2) 1 2 3 4 err_bind_Inr)
  then show ?thesis unfolding d2_def d1_def .
qed

lemma bdim_chain:
  assumes "bdim R C = Some R1" and "bdim R1 C = Some R" and "i < R"
  shows "bidx R1 i = i \<and> bidx R i = i"
  using assms by (auto simp: bdim_def bidx_def split: if_splits)

lemma bidx_bidx [simp]: "bidx C (bidx C j) = bidx C j"
  by (simp add: bidx_def)

lemma scale_data_unbuffered_Arr:
  assumes "ColScl h = Arr (tabulate2 C 1 (\<lambda>i j. sv))"
    and "ColOff h = Arr (tabulate2 C 1 (\<lambda>i j. ov))"
    and "length time = R" and "NT h = int R"
    and ok: "scale_data False h (tabulate2 R C g) time = Inr T"
  shows "T = tabulate2 R (C + 1) (\<lambda>i j.
                if j = 0 then time ! i else fdiv (fsub (g i (j - 1)) ov) sv)"
proof -
  have 3: "reshape2 time (NT h) 1 = Inr (tabulate2 R 1 (\<lambda>i j. time ! i))"
    using reshape2_column [OF assms(3)] assms(4) by simp
  have a: "as_arr2 (ColOff h) = tabulate2 C 1 (\<lambda>i j. ov)"
    "as_arr2 (ColScl h) = tabulate2 C 1 (\<lambda>i j. sv)"
    by (simp_all add: assms(1,2) as_arr2_def)
  from ok have ok': "err_bind (bc2 fsub (tabulate2 R C g) (tabulate2 C 1 (\<lambda>i j. ov))) (\<lambda>data.
        err_bind (bc2 fdiv data (tabulate2 C 1 (\<lambda>i j. sv))) (\<lambda>data.
        concatenate1 (tabulate2 R 1 (\<lambda>i j. time ! i)) data)) = Inr T"
    unfolding scale_data_def by (simp only: if_False a 3 err_bind_Inr)
  obtain R1 where R1: "bdim R C = Some R1"
    using ok' by (cases "bdim R C") (simp_all add: bc2_tabulate2)
  define d1 where "d1 = (\<lambda>i j. fsub (g (bidx R i) (bidx C j)) ov)"
  have 1: "bc2 fsub (tabulate2 R C g) (tabulate2 C 1 (\<lambda>i j. ov)) = Inr (tabulate2 R1 C d1)"
    unfolding d1_def by (simp add: bc2_tabulate2 R1)
  from ok' have ok'': "err_bind (bc2 fdiv (tabulate2 R1 C d1) (tabulate2 C 1 (\<lambda>i j. sv))) (\<lambda>data.
        concatenate1 (tabulate2 R 1 (\<lambda>i j. time ! i)) data) = Inr T"
    by (simp only: 1 err_bind_Inr)
  obtain R2 where R2: "bdim R1 C = Some R2"
    using ok'' by (cases "bdim R1 C") (simp_all add: bc2_tabulate2)
  define d2 where "d2 = (\<lambda>i j. fdiv (d1 (bidx R1 i) (bidx C j)) sv)"
  have 2: "bc2 fdiv (tabulate2 R1 C d1) (tabulate2 C 1 (\<lambda>i j. sv)) = Inr (tabulate2 R2 C d2)"
    unfolding d2_def by (simp add: bc2_tabulate2 R2)
  from ok'' have c: "concatenate1 (tabulate2 R 1 (\<lambda>i j. time ! i)) (tabulate2 R2 C d2) = Inr T"
    by (simp only: 2 err_bind_Inr)
  then have RR: "R2 = R"
    by (simp add: concatenate1_tabulate2 split: if_splits)
  from c have T: "T = tabulate2 R (C + 1) (\<lambda>i j. if j = 0 then time ! i else d2 i (j - 1))"
    unfolding RR by (simp only: concatenate1_tabulate2 simp_thms if_True tabulate2_concat_col sum.inject)
  have "tabulate2 R (C + 1) (\<lambda>i j. if j = 0 then time ! i else d2 i (j - 1)) =
        tabulate2 R (C + 1) (\<lambda>i j.
                if j = 0 then time ! i else fdiv (fsub (g i (j - 1)) ov) sv)"
  proof (rule tabulate2_cong)
    fix i j
    assume i: "i < R" and j: "j < C + 1"
    from bdim_chain [OF R1 R2 [unfolded RR] i]
    have "d2 i (j - 1) = fdiv (fsub (g i (bidx C (j - 1))) ov) sv"
      by (simp add: d2_def d1_def)
    moreover have "j \<noteq> 0 \<Longrightarrow> bidx C (j - 1) = j - 1" using j by (intro bidx_less) simp
    ultimately show "(if j = 0 then time ! i else d2 i (j - 1)) =
          (if j = 0 then time ! i else fdiv (fsub (g i (j - 1)) ov) sv)"
      by simp
  qed
  with T show ?thesis by simp
qed


subsection \<open>A successful read, in terms of the file format\<close>

lemma iop_bind_SomeInrD:
  assumes "iop_bind m f fid = Some (Inr v, fid')"
  obtains x fid1 where "m fid = Some (Inr x, fid1)" and "f x fid1 = Some (Inr v, fid')"
  using assms by (auto simp: iop_bind_def split: option.splits prod.splits sum.splits)

lemma stored_eq:
  "unpack1 (payload_dtype (file_format_id bytes))
     (take (nbytes (payload_dtype (file_format_id bytes)))
        (drop (nbytes (payload_dtype (file_format_id bytes))
                 * (r * nat (file_channel_count bytes) + c))
           (drop (file_p4 bytes) bytes))) = file_stored bytes r c"
  by (simp add: file_stored_def payload_dtype_def field_def Let_def unpack1_simps add.commute)

lemma read_success:
  assumes ok: "ReadFASTbinary fs filename ub = Some (Inr (data, info))"
    and fs: "fs filename = Some bytes"
  shows "file_format_id bytes \<in> {1, 2, 3, 4}
       \<and> 0 \<le> file_channel_count bytes \<and> 0 \<le> file_step_count bytes
       \<and> file_end bytes \<le> length bytes
       \<and> data = tabulate2 (nat (file_step_count bytes)) (nat (file_channel_count bytes) + 1)
                  (\<lambda>i j. if j = 0 then file_time bytes i
                         else if ub \<and> nan_sentinel bytes (j - 1) then f64_zero
                              else file_dequantized bytes i (j - 1))
       \<and> info = \<lparr>name = splitext_root (basename filename),
                  description = strip (decode_field (file_description bytes)),
                  fileID = file_format_id bytes,
                  attribute_names = map (\<lambda>k. strip (decode_field (file_name_field bytes k)))
                                      [0..<nat (file_channel_count bytes + 1)],
                  attribute_units = map (\<lambda>k. slice_1_m1 (strip (decode_field
                                             (file_unit_field bytes k))))
                                      [0..<nat (file_channel_count bytes + 1)]\<rparr>"
proof -
  define fmt where "fmt = file_format_id bytes"
  define C where "C = nat (file_channel_count bytes)"
  define R where "R = nat (file_step_count bytes)"
  define ty where "ty = payload_dtype fmt"
  from ok fs obtain h pt d0 fidE where wb: "with_block ub bytes = Some (Inr (h, pt, d0), fidE)"
    and post: "err_bind (reconstruct_time h pt) (\<lambda>time.
                 err_bind (scale_data ub h d0 time) (\<lambda>data.
                 Inr (data, \<lparr>name = splitext_root (basename filename),
                           description = DescStr h, fileID = FileID h,
                           attribute_names = ChanName h,
                           attribute_units = ChanUnit h\<rparr>))) = Inr (data, info)"
    by (auto simp: ReadFASTbinary_def split: option.splits prod.splits sum.splits)
  from wb obtain rest where hd: "read_header bytes = (Inr h, rest)"
    and rs: "read_series ub h rest = Some (Inr (pt, d0), fidE)"
    unfolding with_block_def
    by (auto elim!: iop_bind_SomeInrD simp: iop_of_def io_return_def)
  note L = read_header_layout [OF hd]
  from L have id: "FileID h = fmt" and fmt4: "fmt \<in> {1, 2, 3, 4}"
    and cc: "NumOutChans h = file_channel_count bytes" and c0: "0 \<le> NumOutChans h"
    and nt: "NT h = file_step_count bytes"
    and rest: "rest = drop (file_p3 bytes) bytes" and l3: "file_p3 bytes \<le> length bytes"
    by (auto simp: fmt_def)
  have Cc: "NumOutChans h = int C" using c0 cc by (simp add: C_def)
  from rs obtain fid1 where rp: "read_PackedTime h rest = (Inr pt, fid1)"
    and rd: "read_data ub h fid1 = Some (Inr d0, fidE)"
    unfolding read_series_def
    by (auto elim!: iop_bind_SomeInrD simp: iop_of_def io_return_def)
  from read_PackedTime_InrD [OF rp]
  have pt: "pt = (if fmt = 1 then map le_int (chunks 4 R rest) else [])"
    and fid1: "fid1 = drop (file_p4 bytes) bytes" and l4: "file_p4 bytes \<le> length bytes"
    and nt1: "fmt = 1 \<Longrightarrow> 0 \<le> NT h"
    using l3
    by (auto simp: id nt R_def rest file_p4_def fmt_def add.commute)
  have sub: "0 \<le> NT h \<and> nbytes ty * (C * R) \<le> length fid1"
    using read_data_unbuffered_InrD [of h fid1 d0 fidE] read_data_buffered_InrD [of h fid1 d0 fidE]
      rd c0
    by (cases ub) (simp_all add: id ty_def cc nt C_def R_def)
  then have nt0: "0 \<le> NT h" and lp: "nbytes ty * (C * R) \<le> length fid1" by simp_all
  have NR: "NT h = int R" using nt0 nt by (simp add: R_def)
  have fe: "file_end bytes \<le> length bytes"
    using lp l4
    by (simp add: file_end_def fid1 ty_def nbytes_payload fmt_def R_def C_def mult.commute)
  \<comment> \<open>time\<close>
  define time where "time = map (file_time bytes) [0..<R]"
  have tm: "reconstruct_time h pt = Inr time"
  proof -
    from L have th: "TimeHdr h = (if FileID h = 1 then WithTime [file_time1 bytes] [file_time2 bytes]
                      else WithoutTime [file_time1 bytes] [file_time2 bytes])" by simp
    have "(if FileID h = 1
           then map (\<lambda>p. fdiv (fsub (f64_of_int p) (file_time2 bytes)) (file_time1 bytes)) pt
           else map (\<lambda>k. fadd (file_time1 bytes) (fmul (file_time2 bytes) (f64_of_int (int k))))
                  [0..<nat (NT h)]) = time"
    proof (cases "fmt = 1")
      case True
      have "map (\<lambda>p. fdiv (fsub (f64_of_int p) (file_time2 bytes)) (file_time1 bytes)) pt = time"
        unfolding time_def
        by (rule nth_equalityI)
          (simp_all add: pt True chunks_nth file_time_def fmt_def [symmetric]
            file_packed_time_def field_def rest add.commute mult.commute)
      with True show ?thesis by (simp add: id)
    next
      case False
      then show ?thesis
        by (simp add: id time_def file_time_def fmt_def [symmetric] NR)
    qed
    with reconstruct_time_eq [OF th, of pt] show ?thesis by simp
  qed
  have lt: "length time = R" by (simp add: time_def)
  have ti: "\<And>i. i < R \<Longrightarrow> time ! i = file_time bytes i" by (simp add: time_def)
  from post have sd: "scale_data ub h d0 time = Inr data"
    and info: "info = \<lparr>name = splitext_root (basename filename),
                           description = DescStr h, fileID = FileID h,
                           attribute_names = ChanName h,
                           attribute_units = ChanUnit h\<rparr>"
    by (auto simp: tm err_bind_def split: sum.splits)
  \<comment> \<open>scale and offset of a channel\<close>
  from L have cs0: "ColScl h = (if FileID h = 3
                      then Arr (tabulate2 (nat (NumOutChans h)) 1 (\<lambda>i j. f64_one))
                      else Tup (map (file_scale bytes) [0..<nat (NumOutChans h)]))"
    and co0: "ColOff h = (if FileID h = 3
                      then Arr (tabulate2 (nat (NumOutChans h)) 1 (\<lambda>i j. f64_zero))
                      else Tup (map (file_offset bytes) [0..<nat (NumOutChans h)]))"
    by blast+
  note cs = cs0 [unfolded id Cc nat_int] and co = co0 [unfolded id Cc nat_int]
  have sc: "col_item (ColScl h) c = file_scale bytes c"
    and of: "col_item (ColOff h) c = file_offset bytes c" if "c < C" for c
    using that
    by (simp_all add: cs co col_item_def file_scale_def file_offset_def fmt_def [symmetric])
  define st where "st = (\<lambda>i c. unpack1 ty (take (nbytes ty) (drop (nbytes ty * (i * C + c)) fid1)))"
  have st: "\<And>i c. st i c = file_stored bytes i c"
    unfolding st_def ty_def fmt_def C_def fid1 by (rule stored_eq)
  have "data = tabulate2 R (C + 1)
                  (\<lambda>i j. if j = 0 then file_time bytes i
                         else if ub \<and> nan_sentinel bytes (j - 1) then f64_zero
                              else file_dequantized bytes i (j - 1))"
  proof (cases ub)
    case True
    with rd sd have rdT: "read_data True h fid1 = Some (Inr d0, fidE)"
      and sdT: "scale_data True h d0 time = Inr data" by simp_all
    define g0 where "g0 = (\<lambda>i (j::nat). if 1 \<le> j then st i (j - 1) else f64_zero)"
    from read_data_buffered_InrD [OF rdT c0]
    have d0: "d0 = tabulate2 R (C + 1) g0" unfolding g0_def
      by (simp add: st_def ty_def id Cc NR cong: if_cong)
    from sdT [unfolded d0 scale_data_buffered_eq [OF lt Cc]]
    have "data = tabulate2 R (C + 1) (\<lambda>i j.
                if j = 0 then time ! i
                else if isnan (col_item (ColScl h) (j - 1)) \<and> isnan (col_item (ColOff h) (j - 1))
                     then f64_zero
                     else fdiv (fsub (g0 i j) (col_item (ColOff h) (j - 1)))
                            (col_item (ColScl h) (j - 1)))"
      by simp
    also have "\<dots> = tabulate2 R (C + 1)
                  (\<lambda>i j. if j = 0 then file_time bytes i
                         else if ub \<and> nan_sentinel bytes (j - 1) then f64_zero
                              else file_dequantized bytes i (j - 1))"
    proof (rule tabulate2_cong)
      fix i j
      assume i: "i < R" and j: "j < C + 1"
      show "(if j = 0 then time ! i
                else if isnan (col_item (ColScl h) (j - 1)) \<and> isnan (col_item (ColOff h) (j - 1))
                     then f64_zero
                     else fdiv (fsub (g0 i j) (col_item (ColOff h) (j - 1)))
                            (col_item (ColScl h) (j - 1))) =
            (if j = 0 then file_time bytes i
                         else if ub \<and> nan_sentinel bytes (j - 1) then f64_zero
                              else file_dequantized bytes i (j - 1))"
      proof (cases "j = 0")
        case True
        with i show ?thesis by (simp add: ti)
      next
        case False
        with j have "j - 1 < C" "1 \<le> j" by simp_all
        with False \<open>ub\<close> show ?thesis
          by (simp add: g0_def sc of st nan_sentinel_def file_dequantized_def)
      qed
    qed
    finally show ?thesis .
  next
    case False
    with rd sd have rdF: "read_data False h fid1 = Some (Inr d0, fidE)"
      and sdF: "scale_data False h d0 time = Inr data" by simp_all
    from read_data_unbuffered_InrD [OF rdF c0]
    have d0: "d0 = tabulate2 R C st"
      by (simp add: st_def ty_def id Cc NR)
    have "data = tabulate2 R (C + 1) (\<lambda>i j.
                if j = 0 then time ! i
                else fdiv (fsub (st i (j - 1)) (file_offset bytes (j - 1)))
                       (file_scale bytes (j - 1)))"
    proof (cases "fmt = 3")
      case True
      from cs co have "ColScl h = Arr (tabulate2 C 1 (\<lambda>i j. f64_one))"
        and "ColOff h = Arr (tabulate2 C 1 (\<lambda>i j. f64_zero))"
        by (simp_all add: True)
      from scale_data_unbuffered_Arr [OF this lt NR sdF [unfolded d0]] True
      show ?thesis
        by (simp add: file_offset_def file_scale_def fmt_def [symmetric] cong: if_cong)
    next
      case f3: False
      from cs co have s: "ColScl h = Tup (map (file_scale bytes) [0..<C])"
        and p: "ColOff h = Tup (map (file_offset bytes) [0..<C])"
        by (simp_all add: f3)
      from scale_data_unbuffered_Tup [OF s p _ _ lt NR, of C st] sdF [unfolded d0]
      have "data = tabulate2 R (C + 1) (\<lambda>i j.
                if j = 0 then time ! i
                else fdiv (fsub (st i (j - 1)) (map (file_offset bytes) [0..<C] ! (j - 1)))
                       (map (file_scale bytes) [0..<C] ! (j - 1)))"
        by simp
      also have "\<dots> = tabulate2 R (C + 1) (\<lambda>i j.
                if j = 0 then time ! i
                else fdiv (fsub (st i (j - 1)) (file_offset bytes (j - 1)))
                       (file_scale bytes (j - 1)))"
        by (rule tabulate2_cong) auto
      finally show ?thesis .
    qed
    also have "\<dots> = tabulate2 R (C + 1)
                  (\<lambda>i j. if j = 0 then file_time bytes i
                         else if ub \<and> nan_sentinel bytes (j - 1) then f64_zero
                              else file_dequantized bytes i (j - 1))"
      using False by (intro tabulate2_cong) (simp add: ti st file_dequantized_def)
    finally show ?thesis .
  qed
  moreover have "info = \<lparr>name = splitext_root (basename filename),
                  description = strip (decode_field (file_description bytes)),
                  fileID = file_format_id bytes,
                  attribute_names = map (\<lambda>k. strip (decode_field (file_name_field bytes k)))
                                      [0..<nat (file_channel_count bytes + 1)],
                  attribute_units = map (\<lambda>k. slice_1_m1 (strip (decode_field
                                             (file_unit_field bytes k))))
                                      [0..<nat (file_channel_count bytes + 1)]\<rparr>"
    using L by (simp add: info)
  ultimately show ?thesis
    using fmt4 c0 nt0 fe by (simp add: fmt_def cc nt R_def C_def)
qed

end
